theory Spec2Isabelle
  imports Complex_Main
begin

section \<open>Direction vectors (dirVector.h, dirVector.cpp)\<close>

text \<open>
  A C++ \<^verbatim>\<open>double\<close> is modelled by a real number: rounding, infinities and NaN are
  outside the model. The members \<^verbatim>\<open>i\<close>, \<^verbatim>\<open>j\<close>, \<^verbatim>\<open>k\<close> of class \<^verbatim>\<open>DirVector\<close> are the
  selectors \<open>vec_i\<close>, \<open>vec_j\<close>, \<open>vec_k\<close>.
\<close>

datatype DirVector = DirVector (vec_i: real) (vec_j: real) (vec_k: real)

text \<open>\<^verbatim>\<open>DirVector::operator-\<close>\<close>

definition dir_minus :: "DirVector \<Rightarrow> DirVector \<Rightarrow> DirVector" where
  "dir_minus a dir = DirVector (vec_i a - vec_i dir) (vec_j a - vec_j dir) (vec_k a - vec_k dir)"

text \<open>\<^verbatim>\<open>DirVector::operator*\<close>, the cross product\<close>

definition dir_cross :: "DirVector \<Rightarrow> DirVector \<Rightarrow> DirVector" where
  "dir_cross a dir =
     DirVector ((vec_j a * vec_k dir) - (vec_j dir * vec_k a))
               ((vec_k a * vec_i dir) - (vec_k dir * vec_i a))
               ((vec_i a * vec_j dir) - (vec_i dir * vec_j a))"

definition magnitude :: "DirVector \<Rightarrow> real" where
  "magnitude a = sqrt ((vec_i a)\<^sup>2 + (vec_j a)\<^sup>2 + (vec_k a)\<^sup>2)"

text \<open>
  \<^verbatim>\<open>std::to_string(double)\<close> belongs to the C++ library; it is a parameter \<open>to_string\<close>
  of everything that prints a coordinate.
\<close>

definition point :: "(real \<Rightarrow> string) \<Rightarrow> DirVector \<Rightarrow> string" where
  "point to_string a =
     to_string (vec_i a) @ '' '' @ to_string (vec_j a) @ '' '' @ to_string (vec_k a)"

text \<open>\<^verbatim>\<open>dot\<close> as dirVector.cpp writes it: the second and third terms are sums.\<close>

definition dot :: "DirVector \<Rightarrow> DirVector \<Rightarrow> real" where
  "dot a b = ((vec_i a * vec_i b) + (vec_j a + vec_j b) + (vec_k a + vec_k b))"

definition angle_between :: "DirVector \<Rightarrow> DirVector \<Rightarrow> real" where
  "angle_between a b = arccos (dot a b / (magnitude a * magnitude b))"

section \<open>Container sizing (voronoi.cpp)\<close>

text \<open>
  The file voronoi.cpp holds two definitions of \<^verbatim>\<open>voronoi\<close>: the first at lines 33-173,
  the second at lines 208-364. They share the checks of the arguments, the bounding box,
  the margins and the extraction of the faces; they differ in the grid and in what the
  loop over the particles does when a cell cannot be computed. What they share is
  modelled once; what differs carries the suffix \<open>_1\<close> or \<open>_2\<close>.
\<close>

datatype failure = Stop string | Undefined

text \<open>
  \<open>Stop\<close> is \<^verbatim>\<open>Rcpp::stop\<close> with its message. \<open>Undefined\<close> stands for what C++ leaves
  undefined: a read or write outside an array or vector, and a conversion of a double
  to \<^verbatim>\<open>int\<close> whose value \<^verbatim>\<open>int\<close> cannot hold.
\<close>

definition setThreshold :: "real \<Rightarrow> real" where
  "setThreshold x = (let threshold = 2 in if x < threshold then threshold else x)"

text \<open>
  \<^verbatim>\<open>Rcpp::min\<close> and \<^verbatim>\<open>Rcpp::max\<close> of a numeric vector. \<^verbatim>\<open>voronoi\<close> calls them after it
  has checked that there are at least two points, so the empty vector has no equation.
\<close>

fun rcpp_min :: "real list \<Rightarrow> real" where
  "rcpp_min (v # vs) = fold min vs v"

fun rcpp_max :: "real list \<Rightarrow> real" where
  "rcpp_max (v # vs) = fold max vs v"

text \<open>\<^verbatim>\<open>xLength = setThreshold( xMax - xMin )\<close>, and the same for y and z.\<close>

definition axis_length :: "real list \<Rightarrow> real" where
  "axis_length v = setThreshold (rcpp_max v - rcpp_min v)"

text \<open>The margin of one axis: \<^verbatim>\<open>conMarginX = xLength * ( containerRatio - 1 ) / 2\<close>.\<close>

definition conMargin :: "real \<Rightarrow> real \<Rightarrow> real" where
  "conMargin len containerRatio = len * (containerRatio - 1) / 2"

record box =
  conXMin :: real
  conXMax :: real
  conYMin :: real
  conYMax :: real
  conZMin :: real
  conZMax :: real

definition container_box :: "real list \<Rightarrow> real list \<Rightarrow> real list \<Rightarrow> real \<Rightarrow> box" where
  "container_box x y z containerRatio =
     (let xMin = rcpp_min x; yMin = rcpp_min y; zMin = rcpp_min z;
          xMax = rcpp_max x; yMax = rcpp_max y; zMax = rcpp_max z;
          xLength = axis_length x;
          yLength = axis_length y;
          zLength = axis_length z;
          conMarginX = conMargin xLength containerRatio;
          conMarginY = conMargin yLength containerRatio;
          conMarginZ = conMargin zLength containerRatio
      in \<lparr> conXMin = xMin - conMarginX, conXMax = xMax + conMarginX,
           conYMin = yMin - conMarginY, conYMax = yMax + conMarginY,
           conZMin = zMin - conMarginZ, conZMax = zMax + conMarginZ \<rparr>)"

subsection \<open>Number of divisions per axis\<close>

text \<open>
  First definition: \<^verbatim>\<open>cells = ( R_xlen_t )ceil( std::cbrt( n ) )\<close>, the same count on the
  three axes. \<open>n\<close> is the length of a vector, so the value is far inside the range of
  \<^verbatim>\<open>R_xlen_t\<close> and of \<^verbatim>\<open>int\<close>.
\<close>

definition cells_1 :: "nat \<Rightarrow> int" where
  "cells_1 n = \<lceil>root 3 (real n)\<rceil>"

text \<open>
  Second definition: \<^verbatim>\<open>cells = cbrt( n / ( 5.6 * xLength * yLength * zLength ) )\<close> and
  \<^verbatim>\<open>nx = int( xLength * cells + 1 )\<close>. The conversion truncates towards zero, and C++
  defines it only when the truncated value is an \<^verbatim>\<open>int\<close> (32 bits).
\<close>

definition int_of_double :: "real \<Rightarrow> int option" where
  "int_of_double d =
     (let t = (if 0 \<le> d then \<lfloor>d\<rfloor> else \<lceil>d\<rceil>)
      in if - (2 ^ 31) \<le> t \<and> t < 2 ^ 31 then Some t else None)"

definition cells_2 :: "real list \<Rightarrow> real list \<Rightarrow> real list \<Rightarrow> real" where
  "cells_2 x y z =
     root 3 (real (length x) / (5.6 * axis_length x * axis_length y * axis_length z))"

definition grid_2 :: "real list \<Rightarrow> real list \<Rightarrow> real list \<Rightarrow> (int \<times> int \<times> int) option" where
  "grid_2 x y z =
     (let cells = cells_2 x y z in
      case int_of_double (axis_length x * cells + 1) of None \<Rightarrow> None
      | Some nx \<Rightarrow>
      (case int_of_double (axis_length y * cells + 1) of None \<Rightarrow> None
       | Some ny \<Rightarrow>
       (case int_of_double (axis_length z * cells + 1) of None \<Rightarrow> None
        | Some nz \<Rightarrow> Some (nx, ny, nz))))"

text \<open>The arguments of the constructor of \<^verbatim>\<open>voro::container\<close>.\<close>

record container =
  con_box :: box
  con_nx :: int
  con_ny :: int
  con_nz :: int

section \<open>Extraction of the faces of one cell (voronoi.cpp)\<close>

text \<open>
  What \<^verbatim>\<open>voronoi\<close> reads of a computed \<^verbatim>\<open>voro::voronoicell\<close>: the number of vertices
  \<^verbatim>\<open>vc.p\<close>, the orders \<^verbatim>\<open>vc.nu\<close>, the edge table \<^verbatim>\<open>vc.ed\<close>, and the coordinates that
  \<^verbatim>\<open>vc.vertices( i, j, k, vertices )\<close> stores for the particle at \<^verbatim>\<open>( i, j, k )\<close>.
\<close>

record voronoicell =
  vc_p :: int
  vc_nu :: "int list"
  vc_ed :: "int list list"
  vc_vertices :: "real list"

text \<open>Reading an element: nothing is there outside the bounds.\<close>

definition idx :: "'a list \<Rightarrow> int \<Rightarrow> 'a option" where
  "idx xs n = (if 0 \<le> n \<and> n < int (length xs) then Some (xs ! nat n) else None)"

definition idx2 :: "'a list list \<Rightarrow> int \<Rightarrow> int \<Rightarrow> 'a option" where
  "idx2 xss m n = (case idx xss m of None \<Rightarrow> None | Some xs \<Rightarrow> idx xs n)"

text \<open>Writing an element; every write of the model follows a read of the same place.\<close>

definition upd2 :: "'a list list \<Rightarrow> int \<Rightarrow> int \<Rightarrow> 'a \<Rightarrow> 'a list list" where
  "upd2 xss m n v = xss[nat m := (xss ! nat m)[nat n := v]]"

text \<open>
  Modelled from the spec: \<^verbatim>\<open>vc.cycle_up\<close> is a member of voro++'s cell class, which is
  not under src/. The spec (4.5) describes it as taking the next slot in cyclic order at
  a vertex: after the last slot \<open>nu[p] - 1\<close> comes slot 0.
\<close>

definition cycle_up :: "int list \<Rightarrow> int \<Rightarrow> int \<Rightarrow> int option" where
  "cycle_up nu a p =
     (case idx nu p of None \<Rightarrow> None
      | Some n \<Rightarrow> Some (if a = n - 1 then 0 else a + 1))"

definition polygon :: "string \<Rightarrow> string \<Rightarrow> string \<Rightarrow> string" where
  "polygon a b c = ''(('' @ a @ '', '' @ b @ '', '' @ c @ '', '' @ a @ ''))''"

definition append_polygon :: "string \<Rightarrow> string \<Rightarrow> string" where
  "append_polygon surface poly =
     (if surface = ''POLYHEDRALSURFACE('' then surface @ poly else surface @ '', '' @ poly)"

text \<open>
  The state of the extraction: the edge table, which the walk overwrites, and the text
  built so far. \<open>marked\<close> and \<open>emitted\<close> are history variables, which the computation
  never reads: the places \<open>(vertex, slot)\<close> of the writes \<^verbatim>\<open>vc.ed[..][..] = -1 - ..\<close> and
  the index triples \<open>(ii, kk, mm)\<close> of the polygons appended, both in order.
\<close>

record extraction =
  ed :: "int list list"
  polyhedralsurface :: string
  marked :: "(int \<times> int) list"
  emitted :: "(int \<times> int \<times> int) list"

definition mark :: "int \<Rightarrow> int \<Rightarrow> int \<Rightarrow> extraction \<Rightarrow> extraction" where
  "mark a b v s = s\<lparr> ed := upd2 (ed s) a b (- 1 - v), marked := marked s @ [(a, b)] \<rparr>"

text \<open>The body of \<^verbatim>\<open>while ( mm != ii )\<close>.\<close>

definition face_step ::
  "int list \<Rightarrow> string list \<Rightarrow> int \<Rightarrow> int \<times> int \<times> int \<times> extraction
     \<Rightarrow> (int \<times> int \<times> int \<times> extraction) option" where
  "face_step nu points ii = (\<lambda>(kk, ll, mm, s).
     case idx nu kk of None \<Rightarrow> None | Some nukk \<Rightarrow>
     case idx2 (ed s) kk (nukk + ll) of None \<Rightarrow> None | Some r \<Rightarrow>
     case cycle_up nu r mm of None \<Rightarrow> None | Some nn \<Rightarrow>
     case idx points ii of None \<Rightarrow> None | Some pii \<Rightarrow>
     case idx points kk of None \<Rightarrow> None | Some pkk \<Rightarrow>
     case idx points mm of None \<Rightarrow> None | Some pmm \<Rightarrow>
     let s1 = s\<lparr> polyhedralsurface :=
                    append_polygon (polyhedralsurface s) (polygon pii pkk pmm),
                  emitted := emitted s @ [(ii, kk, mm)] \<rparr>
     in case idx2 (ed s1) mm nn of None \<Rightarrow> None
        | Some mm' \<Rightarrow> Some (mm, nn, mm', mark mm nn mm' s1))"

text \<open>
  The loop \<^verbatim>\<open>while ( mm != ii )\<close>. Nothing in the code bounds it, so the model is a
  partial function: \<open>None\<close> is a loop that never ends.
\<close>

partial_function (option) face_loop ::
  "int list \<Rightarrow> string list \<Rightarrow> int \<Rightarrow> int \<times> int \<times> int \<times> extraction
     \<Rightarrow> (failure + extraction) option" where
  "face_loop nu points ii w =
     (case w of (kk, ll, mm, s) \<Rightarrow>
        if mm \<noteq> ii
        then (case face_step nu points ii w of
                None \<Rightarrow> Some (Inl Undefined)
              | Some w' \<Rightarrow> face_loop nu points ii w')
        else Some (Inr s))"

declare face_loop.simps [code]

text \<open>The body of the loop over \<open>jj\<close>.\<close>

definition face ::
  "int list \<Rightarrow> string list \<Rightarrow> int \<Rightarrow> int \<Rightarrow> extraction \<Rightarrow> (failure + extraction) option" where
  "face nu points ii jj s =
     (case idx2 (ed s) ii jj of None \<Rightarrow> Some (Inl Undefined) | Some kk \<Rightarrow>
      if kk \<ge> 0 then
        (let s1 = mark ii jj kk s in
         case idx nu ii of None \<Rightarrow> Some (Inl Undefined) | Some nuii \<Rightarrow>
         case idx2 (ed s1) ii (nuii + jj) of None \<Rightarrow> Some (Inl Undefined) | Some r \<Rightarrow>
         case cycle_up nu r kk of None \<Rightarrow> Some (Inl Undefined) | Some ll \<Rightarrow>
         case idx2 (ed s1) kk ll of None \<Rightarrow> Some (Inl Undefined) | Some mm \<Rightarrow>
         face_loop nu points ii (kk, ll, mm, mark kk ll mm s1))
      else Some (Inr s))"

text \<open>
  \<^verbatim>\<open>for ( jj = 0; jj < vc.nu[ii]; jj++ )\<close> and \<^verbatim>\<open>for ( ii = 1; ii < vc.p; ii++ )\<close>. The bodies
  write neither \<^verbatim>\<open>vc.nu\<close> nor \<^verbatim>\<open>vc.p\<close>, so each loop runs through a list of indices that
  is fixed when it starts.
\<close>

fun for_jj ::
  "int list \<Rightarrow> string list \<Rightarrow> int \<Rightarrow> int list \<Rightarrow> extraction \<Rightarrow> (failure + extraction) option" where
  "for_jj nu points ii [] s = Some (Inr s)"
| "for_jj nu points ii (jj # jjs) s =
     (case face nu points ii jj s of
        Some (Inr s') \<Rightarrow> for_jj nu points ii jjs s'
      | r \<Rightarrow> r)"

fun for_ii ::
  "int list \<Rightarrow> string list \<Rightarrow> int list \<Rightarrow> extraction \<Rightarrow> (failure + extraction) option" where
  "for_ii nu points [] s = Some (Inr s)"
| "for_ii nu points (ii # iis) s =
     (case idx nu ii of None \<Rightarrow> Some (Inl Undefined) | Some nuii \<Rightarrow>
      case for_jj nu points ii [0 .. nuii - 1] s of
        Some (Inr s') \<Rightarrow> for_ii nu points iis s'
      | r \<Rightarrow> r)"

definition start :: "voronoicell \<Rightarrow> extraction" where
  "start vc = \<lparr> ed = vc_ed vc, polyhedralsurface = ''POLYHEDRALSURFACE('',
                marked = [], emitted = [] \<rparr>"

definition extract_faces :: "string list \<Rightarrow> voronoicell \<Rightarrow> (failure + extraction) option" where
  "extract_faces points vc = for_ii (vc_nu vc) points [1 .. vc_p vc - 1] (start vc)"

text \<open>
  The loop over \<^verbatim>\<open>vCounter\<close>, which takes the coordinates three at a time; it reads past
  the end of \<^verbatim>\<open>vertices\<close> when the size is not a multiple of three. The first definition
  stores the text of each vertex, the second a \<^verbatim>\<open>DirVector\<close>, printed by \<^verbatim>\<open>point()\<close>
  when a polygon is written.
\<close>

fun points_1 :: "(real \<Rightarrow> string) \<Rightarrow> real list \<Rightarrow> string list option" where
  "points_1 to_string [] = Some []"
| "points_1 to_string (a # b # c # vertices) =
     map_option (Cons (to_string a @ '' '' @ to_string b @ '' '' @ to_string c))
       (points_1 to_string vertices)"
| "points_1 to_string vertices = None"

fun points_2 :: "real list \<Rightarrow> DirVector list option" where
  "points_2 [] = Some []"
| "points_2 (a # b # c # vertices) = map_option (Cons (DirVector a b c)) (points_2 vertices)"
| "points_2 vertices = None"

text \<open>The text of one cell, closed by \<^verbatim>\<open>polyhedralsurface += ")"\<close>.\<close>

definition surface_of :: "string list option \<Rightarrow> voronoicell \<Rightarrow> (failure + string) option" where
  "surface_of points vc =
     (case points of None \<Rightarrow> Some (Inl Undefined)
      | Some ps \<Rightarrow>
        (case extract_faces ps vc of
           None \<Rightarrow> None
         | Some (Inl e) \<Rightarrow> Some (Inl e)
         | Some (Inr s) \<Rightarrow> Some (Inr (polyhedralsurface s @ '')''))))"

definition cell_surface_1 :: "(real \<Rightarrow> string) \<Rightarrow> voronoicell \<Rightarrow> (failure + string) option" where
  "cell_surface_1 to_string vc = surface_of (points_1 to_string (vc_vertices vc)) vc"

definition cell_surface_2 :: "(real \<Rightarrow> string) \<Rightarrow> voronoicell \<Rightarrow> (failure + string) option" where
  "cell_surface_2 to_string vc =
     surface_of (map_option (map (point to_string)) (points_2 (vc_vertices vc))) vc"

section \<open>The driver (voronoi.cpp)\<close>

text \<open>
  voro++ is not part of the repository. What \<^verbatim>\<open>voronoi\<close> uses of it is a parameter:
  \<open>c_loop_order con pts\<close> are the identifiers of the particles that the loop
  \<^verbatim>\<open>clo.start()\<close> ... \<^verbatim>\<open>clo.inc()\<close> visits, in order, after the points \<open>pts\<close> have been put
  into the container \<open>con\<close> with identifiers \<open>0, 1, ...\<close>; \<open>compute_cell con pts i\<close> is the
  cell that \<^verbatim>\<open>con.compute_cell( vc, clo )\<close> computes for particle \<open>i\<close>, or \<open>None\<close> when it
  returns false.
\<close>

record library =
  to_string :: "real \<Rightarrow> string"
  c_loop_order :: "container \<Rightarrow> (real \<times> real \<times> real) list \<Rightarrow> nat list"
  compute_cell :: "container \<Rightarrow> (real \<times> real \<times> real) list \<Rightarrow> nat \<Rightarrow> voronoicell option"

text \<open>The three checks of the arguments, with the message of the one that fails.\<close>

definition check_input :: "real list \<Rightarrow> real list \<Rightarrow> real list \<Rightarrow> real \<Rightarrow> string option" where
  "check_input x y z containerRatio =
     (let n = length x in
      if n \<noteq> length y \<or> n \<noteq> length z
      then Some ''Lengths of coordinate vectors are not equal.''
      else if n < 2
      then Some ''Cannot generate cells if points are less than 2.''
      else if containerRatio < 1
      then Some ''Invalid containerRatio: Value must not be less than 1.''
      else None)"

text \<open>
  An element of an \<^verbatim>\<open>Rcpp::StringVector\<close> is a string or \<^verbatim>\<open>NA_STRING\<close>, here \<open>None\<close>; a
  new vector holds empty strings. \<^verbatim>\<open>cellGeometry[cGCount] = ..\<close> does not check its
  index.
\<close>

definition store ::
  "string option list \<Rightarrow> nat \<Rightarrow> string option \<Rightarrow> string option list option" where
  "store cellGeometry cGCount v =
     (if cGCount < length cellGeometry then Some (cellGeometry[cGCount := v]) else None)"

text \<open>
  The loop over the particles, first definition: a cell that cannot be computed is
  skipped, and \<^verbatim>\<open>cGCount\<close> stays.
\<close>

fun cell_loop_1 ::
  "(real \<Rightarrow> string) \<Rightarrow> (nat \<Rightarrow> voronoicell option) \<Rightarrow> nat list \<Rightarrow> nat \<Rightarrow> string option list
     \<Rightarrow> (failure + string option list) option" where
  "cell_loop_1 ts cell [] cGCount cellGeometry = Some (Inr cellGeometry)"
| "cell_loop_1 ts cell (i # is) cGCount cellGeometry =
     (case cell i of
        Some vc \<Rightarrow>
          (case cell_surface_1 ts vc of
             None \<Rightarrow> None
           | Some (Inl e) \<Rightarrow> Some (Inl e)
           | Some (Inr surface) \<Rightarrow>
               (case store cellGeometry cGCount (Some surface) of
                  None \<Rightarrow> Some (Inl Undefined)
                | Some cellGeometry' \<Rightarrow> cell_loop_1 ts cell is (cGCount + 1) cellGeometry'))
      | None \<Rightarrow> cell_loop_1 ts cell is cGCount cellGeometry)"

text \<open>
  Second definition: a cell that cannot be computed stores \<^verbatim>\<open>NA_STRING\<close>, and \<^verbatim>\<open>cGCount\<close>
  advances in both cases.
\<close>

fun cell_loop_2 ::
  "(real \<Rightarrow> string) \<Rightarrow> (nat \<Rightarrow> voronoicell option) \<Rightarrow> nat list \<Rightarrow> nat \<Rightarrow> string option list
     \<Rightarrow> (failure + string option list) option" where
  "cell_loop_2 ts cell [] cGCount cellGeometry = Some (Inr cellGeometry)"
| "cell_loop_2 ts cell (i # is) cGCount cellGeometry =
     (case cell i of
        Some vc \<Rightarrow>
          (case cell_surface_2 ts vc of
             None \<Rightarrow> None
           | Some (Inl e) \<Rightarrow> Some (Inl e)
           | Some (Inr surface) \<Rightarrow>
               (case store cellGeometry cGCount (Some surface) of
                  None \<Rightarrow> Some (Inl Undefined)
                | Some cellGeometry' \<Rightarrow> cell_loop_2 ts cell is (cGCount + 1) cellGeometry'))
      | None \<Rightarrow>
          (case store cellGeometry cGCount None of
             None \<Rightarrow> Some (Inl Undefined)
           | Some cellGeometry' \<Rightarrow> cell_loop_2 ts cell is (cGCount + 1) cellGeometry'))"

definition container_1 :: "real list \<Rightarrow> real list \<Rightarrow> real list \<Rightarrow> real \<Rightarrow> container" where
  "container_1 x y z containerRatio =
     (let cells = cells_1 (length x)
      in \<lparr> con_box = container_box x y z containerRatio,
           con_nx = cells, con_ny = cells, con_nz = cells \<rparr>)"

definition voronoi_1 ::
  "library \<Rightarrow> real list \<Rightarrow> real list \<Rightarrow> real list \<Rightarrow> real
     \<Rightarrow> (failure + string option list) option" where
  "voronoi_1 lib x y z containerRatio =
     (case check_input x y z containerRatio of
        Some msg \<Rightarrow> Some (Inl (Stop msg))
      | None \<Rightarrow>
          (let n = length x;
               cellGeometry = replicate n (Some []);
               con = container_1 x y z containerRatio;
               pts = zip x (zip y z)
           in cell_loop_1 (to_string lib) (compute_cell lib con pts)
                (c_loop_order lib con pts) 0 cellGeometry))"

definition container_2 :: "real list \<Rightarrow> real list \<Rightarrow> real list \<Rightarrow> real \<Rightarrow> container option" where
  "container_2 x y z containerRatio =
     (case grid_2 x y z of
        None \<Rightarrow> None
      | Some (nx, ny, nz) \<Rightarrow>
          Some \<lparr> con_box = container_box x y z containerRatio,
                 con_nx = nx, con_ny = ny, con_nz = nz \<rparr>)"

definition voronoi_2 ::
  "library \<Rightarrow> real list \<Rightarrow> real list \<Rightarrow> real list \<Rightarrow> real
     \<Rightarrow> (failure + string option list) option" where
  "voronoi_2 lib x y z containerRatio =
     (case check_input x y z containerRatio of
        Some msg \<Rightarrow> Some (Inl (Stop msg))
      | None \<Rightarrow>
          (let n = length x;
               cellGeometry = replicate n (Some []);
               pts = zip x (zip y z)
           in case container_2 x y z containerRatio of
                None \<Rightarrow> Some (Inl Undefined)
              | Some con \<Rightarrow>
                  cell_loop_2 (to_string lib) (compute_cell lib con pts)
                    (c_loop_order lib con pts) 0 cellGeometry))"

section \<open>Notions of the specification\<close>

definition valid_input :: "real list \<Rightarrow> real list \<Rightarrow> real list \<Rightarrow> real \<Rightarrow> bool" where
  "valid_input x y z containerRatio =
     (length x = length y \<and> length x = length z \<and> 2 \<le> length x \<and> 1 \<le> containerRatio)"

text \<open>
  The directed edges of a cell are the pairs \<open>(vertex, slot)\<close>. \<open>tgt\<close> is the vertex an
  edge leads to, \<open>rcp\<close> the slot of the reverse edge there, and \<open>nxt\<close> the edge that the
  walk takes after it: the slot after the reverse edge, in cyclic order.
\<close>

definition darts :: "voronoicell \<Rightarrow> (int \<times> int) list" where
  "darts vc =
     concat (map (\<lambda>v. map (Pair v) [0 .. vc_nu vc ! nat v - 1]) [0 .. vc_p vc - 1])"

definition tgt :: "voronoicell \<Rightarrow> int \<times> int \<Rightarrow> int" where
  "tgt vc d = vc_ed vc ! nat (fst d) ! nat (snd d)"

definition rcp :: "voronoicell \<Rightarrow> int \<times> int \<Rightarrow> int" where
  "rcp vc d = vc_ed vc ! nat (fst d) ! nat (vc_nu vc ! nat (fst d) + snd d)"

definition nxt :: "voronoicell \<Rightarrow> int \<times> int \<Rightarrow> int \<times> int" where
  "nxt vc d =
     (tgt vc d, if rcp vc d = vc_nu vc ! nat (tgt vc d) - 1 then 0 else rcp vc d + 1)"

text \<open>
  A well-formed cell. The tables have \<open>vc.p\<close> rows, row \<open>v\<close> of the edge table has room
  for the \<open>nu[v]\<close> neighbours and their \<open>nu[v]\<close> reverse slots, and there are three
  coordinates for each vertex. Every directed edge has its reverse edge (\<open>reciprocal\<close>),
  no edge joins a vertex to itself, and the walk around a face meets no vertex twice
  before it is back at its first edge, as in the planar embedding of the edge graph of a
  polyhedron.
\<close>

definition table_shape :: "voronoicell \<Rightarrow> bool" where
  "table_shape vc =
     (vc_p vc = int (length (vc_nu vc))
      \<and> list_all2 (\<lambda>n row. 2 * n \<le> int (length row)) (vc_nu vc) (vc_ed vc)
      \<and> int (length (vc_vertices vc)) = 3 * vc_p vc)"

definition reciprocal :: "voronoicell \<Rightarrow> bool" where
  "reciprocal vc =
     (\<forall>d \<in> set (darts vc).
        (tgt vc d, rcp vc d) \<in> set (darts vc)
        \<and> tgt vc (tgt vc d, rcp vc d) = fst d
        \<and> rcp vc (tgt vc d, rcp vc d) = snd d)"

definition loop_free :: "voronoicell \<Rightarrow> bool" where
  "loop_free vc = (\<forall>d \<in> set (darts vc). tgt vc d \<noteq> fst d)"

definition simple_faces :: "voronoicell \<Rightarrow> bool" where
  "simple_faces vc =
     (\<forall>d \<in> set (darts vc). \<forall>k \<in> {1 .. length (darts vc)}.
        fst ((nxt vc ^^ k) d) = fst d \<longrightarrow> (nxt vc ^^ k) d = d)"

definition wf_cell :: "voronoicell \<Rightarrow> bool" where
  "wf_cell vc = (table_shape vc \<and> reciprocal vc \<and> loop_free vc \<and> simple_faces vc)"

text \<open>The rings of a text, joined by comma and space.\<close>

fun join :: "string list \<Rightarrow> string" where
  "join [] = []"
| "join [r] = r"
| "join (r # rs) = r @ '', '' @ join rs"

text \<open>
  \<open>simple_from\<close> checks the condition of \<open>simple_faces\<close> for one directed edge \<open>d\<close>
  along the walk, edge by edge.
\<close>

fun simple_from :: "voronoicell \<Rightarrow> int \<times> int \<Rightarrow> int \<times> int \<Rightarrow> nat \<Rightarrow> bool" where
  "simple_from vc d e 0 = True"
| "simple_from vc d e (Suc n) = ((fst e = fst d \<longrightarrow> e = d) \<and> simple_from vc d (nxt vc e) n)"

text \<open>No two edges lead from one vertex to the same vertex.\<close>

definition no_parallel :: "voronoicell \<Rightarrow> bool" where
  "no_parallel vc =
     (\<forall>d \<in> set (darts vc). \<forall>e \<in> set (darts vc).
        fst d = fst e \<and> tgt vc d = tgt vc e \<longrightarrow> d = e)"

text \<open>
  The text of the ring with the index triple \<open>(ii, kk, mm)\<close>, and what the entry of a
  particle is meant to be: \<^verbatim>\<open>NA_STRING\<close> when its cell could not be computed, the text of
  its cell otherwise (\<open>surface\<close> is \<open>cell_surface_1\<close> or \<open>cell_surface_2\<close> with the
  library's \<open>to_string\<close>).
\<close>

definition ring_text :: "string list \<Rightarrow> int \<times> int \<times> int \<Rightarrow> string" where
  "ring_text points = (\<lambda>(a, b, c).
     polygon (points ! nat a) (points ! nat b) (points ! nat c))"

definition entry_for ::
  "(voronoicell \<Rightarrow> (failure + string) option) \<Rightarrow> voronoicell option \<Rightarrow> string option \<Rightarrow> bool" where
  "entry_for surface c e =
     (case c of None \<Rightarrow> e = None
      | Some vc \<Rightarrow> (\<exists>t. surface vc = Some (Inr t) \<and> e = Some t))"

section \<open>Invariants of the extraction\<close>

text \<open>
  \<open>agrees vc M e\<close>: the table \<open>e\<close> is the table of the cell \<open>vc\<close> with the entries at the
  places \<open>M\<close> replaced by \<open>-1 - entry\<close>. \<open>closed_marks vc M\<close>: \<open>M\<close> is a union of whole
  faces. \<open>text_inv\<close>: the text is the list of the rings emitted so far. \<open>post P\<close>
  holds of an outcome that is a state with \<open>P\<close>, or undefined behaviour.
\<close>

definition agrees :: "voronoicell \<Rightarrow> (int \<times> int) set \<Rightarrow> int list list \<Rightarrow> bool" where
  "agrees vc M e =
     (\<forall>v s. idx2 e v s =
        (case idx2 (vc_ed vc) v s of None \<Rightarrow> None
         | Some x \<Rightarrow> Some (if (v, s) \<in> M then - 1 - x else x)))"

definition closed_marks :: "voronoicell \<Rightarrow> (int \<times> int) set \<Rightarrow> bool" where
  "closed_marks vc M = (\<forall>d \<in> set (darts vc). nxt vc d \<in> M \<longleftrightarrow> d \<in> M)"

definition text_inv :: "string list \<Rightarrow> extraction \<Rightarrow> bool" where
  "text_inv points s =
     (polyhedralsurface s = ''POLYHEDRALSURFACE('' @ join (map (ring_text points) (emitted s)))"

definition post :: "(extraction \<Rightarrow> bool) \<Rightarrow> failure + extraction \<Rightarrow> bool" where
  "post P y = (case y of Inl e \<Rightarrow> e = Undefined | Inr s \<Rightarrow> P s)"

text \<open>
  \<open>emitted_inv vc X s\<close>: each triangle emitted so far belongs to its own directed edge
  in \<open>X\<close>, the edge from its second to its third vertex.
\<close>

definition emitted_inv :: "voronoicell \<Rightarrow> (int \<times> int) set \<Rightarrow> extraction \<Rightarrow> bool" where
  "emitted_inv vc X s =
     (\<exists>ds. distinct ds \<and> set ds \<subseteq> X
        \<and> map (\<lambda>(a, b, c). (b, c)) (emitted s) = map (\<lambda>d. (fst d, tgt vc d)) ds)"

text \<open>
  The invariant of the two \<^verbatim>\<open>for\<close> loops, which holds between two walks: the table is
  the cell's table with the marked entries overwritten, no place has been marked twice,
  every marked place is a directed edge, and the marked edges are whole faces.
\<close>

definition traversal_inv :: "voronoicell \<Rightarrow> extraction \<Rightarrow> bool" where
  "traversal_inv vc s =
     (agrees vc (set (marked s)) (ed s) \<and> distinct (marked s)
      \<and> set (marked s) \<subseteq> set (darts vc) \<and> closed_marks vc (set (marked s))
      \<and> emitted_inv vc (set (marked s)) s)"

text \<open>
  The invariant of \<^verbatim>\<open>while ( mm != ii )\<close>: the walk began at the edge \<open>d0\<close> when the edges
  \<open>M0\<close> were marked, it has taken \<open>k\<close> steps and stands at the edge \<open>c\<close>; the edges marked
  since are those of the walk, each the successor of the one before.
\<close>

definition walk_inv ::
  "voronoicell \<Rightarrow> (int \<times> int) set \<Rightarrow> int \<times> int \<Rightarrow> nat \<Rightarrow> int \<times> int \<Rightarrow> extraction \<Rightarrow> bool" where
  "walk_inv vc M0 d0 k c s =
     (c \<in> set (darts vc) \<and> c = (nxt vc ^^ k) d0 \<and> d0 \<in> set (darts vc)
      \<and> agrees vc (set (marked s)) (ed s) \<and> distinct (marked s)
      \<and> set (marked s) \<subseteq> set (darts vc)
      \<and> M0 \<subseteq> set (marked s) \<and> d0 \<in> set (marked s) \<and> d0 \<notin> M0
      \<and> c \<in> set (marked s) \<and> c \<notin> M0 \<and> closed_marks vc M0
      \<and> nxt vc ` (set (marked s) - M0 - {c}) = set (marked s) - M0 - {d0}
      \<and> card (set (marked s) - M0) = Suc k
      \<and> emitted_inv vc (set (marked s) - {c}) s)"

section \<open>An example\<close>

text \<open>
  The cell of the point \<open>(2, 0, 0)\<close> when the other points are at the origin and the
  container ratio is 2: the box from \<open>(1, -1, -1)\<close> to \<open>(3, 1, 1)\<close>, with an edge table
  of a box, three edges at each of its eight vertices. \<open>six_decimals\<close> agrees with
  \<^verbatim>\<open>std::to_string\<close> on the coordinates of this example.
\<close>

definition box_cell :: voronoicell where
  "box_cell =
     \<lparr> vc_p = 8, vc_nu = [3, 3, 3, 3, 3, 3, 3, 3],
       vc_ed = [[1, 4, 2, 2, 1, 0, 0], [3, 5, 0, 2, 1, 0, 1],
                [0, 6, 3, 2, 1, 0, 2], [2, 7, 1, 2, 1, 0, 3],
                [6, 0, 5, 2, 1, 0, 4], [4, 1, 7, 2, 1, 0, 5],
                [7, 2, 4, 2, 1, 0, 6], [5, 3, 6, 2, 1, 0, 7]],
       vc_vertices = [1, - 1, - 1,  3, - 1, - 1,  1, 1, - 1,  3, 1, - 1,
                      1, - 1, 1,  3, - 1, 1,  1, 1, 1,  3, 1, 1] \<rparr>"

definition six_decimals :: "real \<Rightarrow> string" where
  "six_decimals v =
     (if v = 1 then ''1.000000'' else if v = - 1 then ''-1.000000''
      else if v = 3 then ''3.000000'' else ''0.000000'')"

definition box_points :: "string list" where
  "box_points =
     [''1.000000 -1.000000 -1.000000'', ''3.000000 -1.000000 -1.000000'',
      ''1.000000 1.000000 -1.000000'', ''3.000000 1.000000 -1.000000'',
      ''1.000000 -1.000000 1.000000'', ''3.000000 -1.000000 1.000000'',
      ''1.000000 1.000000 1.000000'', ''3.000000 1.000000 1.000000'']"

definition box_triangles :: "(int \<times> int \<times> int) list" where
  "box_triangles =
     [(1, 3, 2), (1, 2, 0), (1, 5, 7), (1, 7, 3), (1, 0, 4), (1, 4, 5),
      (2, 6, 4), (2, 4, 0), (2, 3, 7), (2, 7, 6), (4, 6, 7), (4, 7, 5)]"

definition box_surface :: string where
  "box_surface =
     ''POLYHEDRALSURFACE('' @ join (map (ring_text box_points) box_triangles) @ '')''"

text \<open>
  A library that visits the particles in the order of the points, fails on the
  particles 0 and 1 and computes the box for every other particle; and one that computes
  the box for every particle.
\<close>

definition example_library :: library where
  "example_library =
     \<lparr> to_string = six_decimals,
       c_loop_order = (\<lambda>con pts. [0 ..< length pts]),
       compute_cell = (\<lambda>con pts i. if i < 2 then None else Some box_cell) \<rparr>"

definition box_library :: library where
  "box_library =
     \<lparr> to_string = six_decimals,
       c_loop_order = (\<lambda>con pts. [0 ..< length pts]),
       compute_cell = (\<lambda>con pts i. Some box_cell) \<rparr>"

section \<open>Lemmas\<close>

lemma idx_Some_iff: "idx xs n = Some v \<longleftrightarrow> 0 \<le> n \<and> n < int (length xs) \<and> xs ! nat n = v"
  by (auto simp: idx_def)

lemma idx2_upd2:
  assumes "idx2 xss a b = Some y"
  shows "idx2 (upd2 xss a b v) m n = (if m = a \<and> n = b then Some v else idx2 xss m n)"
proof -
  from assms have a: "0 \<le> a" "nat a < length xss" and b: "0 \<le> b" "nat b < length (xss ! nat a)"
    by (auto simp: idx2_def idx_def split: if_splits)
  show ?thesis
  proof (cases "0 \<le> m \<and> m < int (length xss)")
    case False
    then show ?thesis using a by (auto simp: idx2_def idx_def upd2_def)
  next
    case True
    show ?thesis
    proof (cases "m = a")
      case True
      then show ?thesis using a b
        by (auto simp: idx2_def idx_def upd2_def nth_list_update nat_eq_iff)
    next
      case False
      with True a have "nat m \<noteq> nat a" by (simp add: nat_eq_iff)
      then show ?thesis using True False
        by (auto simp: idx2_def idx_def upd2_def)
    qed
  qed
qed

lemma in_darts: "d \<in> set (darts vc) \<longleftrightarrow>
    0 \<le> fst d \<and> fst d < vc_p vc \<and> 0 \<le> snd d \<and> snd d < vc_nu vc ! nat (fst d)"
  by (cases d) (force simp: darts_def)

lemma distinct_rows:
  assumes "distinct vs" "\<And>v. distinct (f v)"
  shows "distinct (concat (map (\<lambda>v. map (Pair v) (f v)) vs))"
  using assms(1) by (induction vs) (auto simp: distinct_map inj_on_def assms(2))

lemma distinct_darts: "distinct (darts vc)"
  unfolding darts_def by (rule distinct_rows) simp_all

lemma shape_rows:
  assumes "table_shape vc" "0 \<le> v" "v < vc_p vc"
  shows "nat v < length (vc_nu vc)" "nat v < length (vc_ed vc)"
    "2 * (vc_nu vc ! nat v) \<le> int (length (vc_ed vc ! nat v))"
  using assms by (auto simp: table_shape_def list_all2_conv_all_nth)

lemma dart_reads:
  assumes "table_shape vc" "d \<in> set (darts vc)"
  shows "idx (vc_nu vc) (fst d) = Some (vc_nu vc ! nat (fst d))"
    and "idx2 (vc_ed vc) (fst d) (snd d) = Some (tgt vc d)"
    and "idx2 (vc_ed vc) (fst d) (vc_nu vc ! nat (fst d) + snd d) = Some (rcp vc d)"
proof -
  from assms(2) have r: "0 \<le> fst d" "fst d < vc_p vc" "0 \<le> snd d" "snd d < vc_nu vc ! nat (fst d)"
    by (auto simp: in_darts)
  note s = shape_rows [OF assms(1) r(1,2)]
  show "idx (vc_nu vc) (fst d) = Some (vc_nu vc ! nat (fst d))"
    using r s by (simp add: idx_def)
  show "idx2 (vc_ed vc) (fst d) (snd d) = Some (tgt vc d)"
    using r s by (simp add: idx2_def idx_def tgt_def)
  show "idx2 (vc_ed vc) (fst d) (vc_nu vc ! nat (fst d) + snd d) = Some (rcp vc d)"
    using r s by (simp add: idx2_def idx_def rcp_def)
qed

lemma fst_nxt [simp]: "fst (nxt vc d) = tgt vc d"
  by (simp add: nxt_def)

lemma rev_dart:
  assumes "reciprocal vc" "d \<in> set (darts vc)"
  shows "(tgt vc d, rcp vc d) \<in> set (darts vc)"
    and "tgt vc (tgt vc d, rcp vc d) = fst d"
    and "rcp vc (tgt vc d, rcp vc d) = snd d"
  using assms by (auto simp: reciprocal_def)

lemma nxt_in_darts:
  assumes "reciprocal vc" "d \<in> set (darts vc)"
  shows "nxt vc d \<in> set (darts vc)"
  using rev_dart(1) [OF assms] by (auto simp: in_darts nxt_def)

lemma nxt_inj:
  assumes "reciprocal vc" "d \<in> set (darts vc)" "e \<in> set (darts vc)" "nxt vc d = nxt vc e"
  shows "d = e"
proof -
  from assms(4) have t: "tgt vc d = tgt vc e"
    by (simp add: nxt_def)
  have rd: "0 \<le> rcp vc d" "rcp vc d < vc_nu vc ! nat (tgt vc d)"
    using rev_dart(1) [OF assms(1,2)] by (auto simp: in_darts)
  have re: "0 \<le> rcp vc e" "rcp vc e < vc_nu vc ! nat (tgt vc d)"
    using rev_dart(1) [OF assms(1,3)] t by (auto simp: in_darts)
  from assms(4) t rd re have r: "rcp vc d = rcp vc e"
    by (auto simp: nxt_def split: if_splits)
  have "fst d = fst e"
    using rev_dart(2) [OF assms(1,2)] rev_dart(2) [OF assms(1,3)] t r by simp
  moreover have "snd d = snd e"
    using rev_dart(3) [OF assms(1,2)] rev_dart(3) [OF assms(1,3)] t r by simp
  ultimately show ?thesis by (simp add: prod_eq_iff)
qed

lemma join_snoc: "join (rs @ [r]) = (if rs = [] then r else join rs @ '', '' @ r)"
  by (induction rs rule: join.induct) auto

lemma join_not_Nil: "rs \<noteq> [] \<Longrightarrow> hd rs \<noteq> [] \<Longrightarrow> join rs \<noteq> []"
  by (induction rs rule: join.induct) auto

lemma polygon_not_Nil: "polygon a b c \<noteq> []"
  by (simp add: polygon_def)

lemma text_inv_step:
  assumes "text_inv points s"
  shows "text_inv points
           (s\<lparr> polyhedralsurface :=
                  append_polygon (polyhedralsurface s)
                    (polygon (points ! nat a) (points ! nat b) (points ! nat c)),
                emitted := emitted s @ [(a, b, c)] \<rparr>)"
proof (cases "emitted s = []")
  case True
  then show ?thesis using assms
    by (simp add: text_inv_def append_polygon_def ring_text_def)
next
  case False
  then have "join (map (ring_text points) (emitted s)) \<noteq> []"
    by (intro join_not_Nil) (auto simp: hd_map ring_text_def polygon_not_Nil split: prod.splits)
  then show ?thesis using assms False
    by (simp add: text_inv_def append_polygon_def join_snoc ring_text_def)
qed

lemma text_inv_mark [simp]: "text_inv points (mark a b v s) = text_inv points s"
  by (simp add: text_inv_def mark_def)

lemma face_step_text:
  assumes "face_step nu points ii (kk, ll, mm, s) = Some (kk', ll', mm', s')" "text_inv points s"
  shows "text_inv points s'"
  using assms
  by (auto simp: face_step_def Let_def idx_Some_iff split: option.splits
      intro!: text_inv_step)

lemma post_simps [simp]: "post P (Inl e) = (e = Undefined)" "post P (Inr s) = P s"
  by (simp_all add: post_def)

lemma face_loop_text:
  assumes "face_loop nu points ii w = Some y"
  shows "text_inv points (snd (snd (snd w))) \<longrightarrow> post (text_inv points) y"
proof (rule face_loop.raw_induct
    [where P = "\<lambda>nu points ii w y. text_inv points (snd (snd (snd w))) \<longrightarrow> post (text_inv points) y",
      OF _ assms])
  fix f nu points ii w y
  assume IH: "\<And>a b c d y. f a b c d = Some y \<Longrightarrow>
      text_inv b (snd (snd (snd d))) \<longrightarrow> post (text_inv b) y"
    and eq: "(case w of (kk, ll, mm, s) \<Rightarrow>
        if mm \<noteq> ii
        then case face_step nu points ii w of None \<Rightarrow> Some (Inl Undefined)
             | Some w' \<Rightarrow> f nu points ii w'
        else Some (Inr s)) = Some y"
  obtain kk ll mm s where w: "w = (kk, ll, mm, s)" by (cases w) auto
  show "text_inv points (snd (snd (snd w))) \<longrightarrow> post (text_inv points) y"
  proof (cases "mm \<noteq> ii")
    case False
    with eq w show ?thesis by auto
  next
    case True
    show ?thesis
    proof (cases "face_step nu points ii w")
      case None
      with eq w True show ?thesis by auto
    next
      case (Some w')
      obtain kk' ll' mm' s' where w': "w' = (kk', ll', mm', s')" by (cases w') auto
      from eq w True Some have "f nu points ii w' = Some y" by simp
      from IH [OF this] have "text_inv points s' \<longrightarrow> post (text_inv points) y"
        by (simp add: w')
      moreover have "text_inv points s \<longrightarrow> text_inv points s'"
        using face_step_text Some w w' by blast
      ultimately show ?thesis by (simp add: w)
    qed
  qed
qed

lemma face_text:
  assumes "face nu points ii jj s = Some y" "text_inv points s"
  shows "post (text_inv points) y"
proof -
  have *: "post (text_inv points) y"
    if "face_loop nu points ii (kk, ll, mm, mark kk ll mm (mark ii jj v s)) = Some y"
    for kk ll mm v
    using face_loop_text [OF that] assms(2) by simp
  show ?thesis using assms
    by (auto simp: face_def Let_def * split: option.splits if_splits)
qed

lemma for_jj_text:
  assumes "for_jj nu points ii jjs s = Some y" "text_inv points s"
  shows "post (text_inv points) y"
  using assms
proof (induction jjs arbitrary: s)
  case Nil
  then show ?case by auto
next
  case (Cons jj jjs)
  show ?case
  proof (cases "face nu points ii jj s")
    case None
    with Cons.prems show ?thesis by simp
  next
    case (Some r)
    note ft = face_text [OF Some Cons.prems(2)]
    show ?thesis
    proof (cases r)
      case (Inl e)
      with Some Cons.prems ft show ?thesis by auto
    next
      case (Inr s1)
      with Some Cons.prems ft show ?thesis by (auto intro: Cons.IH)
    qed
  qed
qed

lemma for_ii_text:
  assumes "for_ii nu points iis s = Some y" "text_inv points s"
  shows "post (text_inv points) y"
  using assms
proof (induction iis arbitrary: s)
  case Nil
  then show ?case by auto
next
  case (Cons ii iis)
  show ?case
  proof (cases "idx nu ii")
    case None
    with Cons.prems show ?thesis by auto
  next
    case (Some nuii)
    show ?thesis
    proof (cases "for_jj nu points ii [0 .. nuii - 1] s")
      case None
      with Some Cons.prems show ?thesis by simp
    next
      case jj: (Some r)
      note ft = for_jj_text [OF jj Cons.prems(2)]
      show ?thesis
      proof (cases r)
        case (Inl e)
        with Some jj Cons.prems ft show ?thesis by auto
      next
        case (Inr s1)
        with Some jj Cons.prems ft show ?thesis by (auto intro: Cons.IH)
      qed
    qed
  qed
qed

lemma text_inv_start: "text_inv points (start vc)"
  by (simp add: text_inv_def start_def)

lemma extract_faces_text:
  assumes "extract_faces points vc = Some y"
  shows "post (text_inv points) y"
  using assms for_ii_text text_inv_start unfolding extract_faces_def by blast

lemma agrees_read:
  assumes "agrees vc M e" "idx2 (vc_ed vc) v s = Some x"
  shows "idx2 e v s = Some (if (v, s) \<in> M then - 1 - x else x)"
  using assms by (simp add: agrees_def)

lemma agrees_mark:
  assumes "agrees vc M e" "idx2 (vc_ed vc) v s = Some x" "(v, s) \<notin> M"
  shows "agrees vc (insert (v, s) M) (upd2 e v s (- 1 - x))"
proof -
  have r: "idx2 e v s = Some x" using agrees_read [OF assms(1,2)] assms(3) by simp
  show ?thesis
    unfolding agrees_def
  proof (intro allI)
    fix a b
    show "idx2 (upd2 e v s (- 1 - x)) a b =
        (case idx2 (vc_ed vc) a b of None \<Rightarrow> None
         | Some y \<Rightarrow> Some (if (a, b) \<in> insert (v, s) M then - 1 - y else y))"
      using assms(1,2) by (auto simp: idx2_upd2 [OF r] agrees_def split: option.splits)
  qed
qed

lemma walk_next_fresh:
  assumes R: "reciprocal vc" and w: "walk_inv vc M0 d0 k c s" and ne: "tgt vc c \<noteq> fst d0"
  shows "nxt vc c \<in> set (darts vc)" "nxt vc c \<notin> set (marked s)" "nxt vc c \<noteq> d0"
proof -
  from w have c: "c \<in> set (darts vc)" "c \<notin> M0" and cl: "closed_marks vc M0"
    and sub: "set (marked s) \<subseteq> set (darts vc)"
    and img: "nxt vc ` (set (marked s) - M0 - {c}) = set (marked s) - M0 - {d0}"
    by (auto simp: walk_inv_def)
  show d: "nxt vc c \<in> set (darts vc)" using nxt_in_darts [OF R c(1)] .
  show n0: "nxt vc c \<noteq> d0" using ne by (metis fst_nxt)
  have m0: "nxt vc c \<notin> M0" using cl c by (auto simp: closed_marks_def)
  show "nxt vc c \<notin> set (marked s)"
  proof
    assume "nxt vc c \<in> set (marked s)"
    with m0 n0 have "nxt vc c \<in> set (marked s) - M0 - {d0}" by simp
    with img obtain e where e: "e \<in> set (marked s) - M0 - {c}" "nxt vc e = nxt vc c"
      by (metis (no_types, lifting) imageE)
    then have "e \<in> set (darts vc)" using sub by auto
    from nxt_inj [OF R this c(1) e(2)] e(1) show False by simp
  qed
qed

lemma in_range_points:
  assumes "vc_p vc \<le> int (length points)" "0 \<le> v" "v < vc_p vc"
  shows "idx points v = Some (points ! nat v)"
  using assms by (simp add: idx_def)

lemma walk_step:
  assumes S: "table_shape vc" and R: "reciprocal vc"
    and pts: "vc_p vc \<le> int (length points)"
    and w: "walk_inv vc M0 d0 k c s" and ne: "tgt vc c \<noteq> fst d0"
  shows "\<exists>s'. face_step (vc_nu vc) points (fst d0) (fst c, snd c, tgt vc c, s)
            = Some (fst (nxt vc c), snd (nxt vc c), tgt vc (nxt vc c), s')
          \<and> walk_inv vc M0 d0 (Suc k) (nxt vc c) s'
          \<and> set (marked s') = insert (nxt vc c) (set (marked s))"
proof -
  define nc where "nc = nxt vc c"
  define s1 where "s1 = s\<lparr> polyhedralsurface :=
        append_polygon (polyhedralsurface s)
          (polygon (points ! nat (fst d0)) (points ! nat (fst c)) (points ! nat (tgt vc c))),
      emitted := emitted s @ [(fst d0, fst c, tgt vc c)] \<rparr>"
  define s' where "s' = mark (fst nc) (snd nc) (tgt vc nc) s1"
  from w have c: "c \<in> set (darts vc)" "c \<in> set (marked s)" "c \<notin> M0"
    and ck: "c = (nxt vc ^^ k) d0"
    and d0: "d0 \<in> set (darts vc)" "d0 \<in> set (marked s)" "d0 \<notin> M0"
    and ag: "agrees vc (set (marked s)) (ed s)"
    and dist: "distinct (marked s)"
    and sub: "set (marked s) \<subseteq> set (darts vc)"
    and M0: "M0 \<subseteq> set (marked s)" "closed_marks vc M0"
    and img: "nxt vc ` (set (marked s) - M0 - {c}) = set (marked s) - M0 - {d0}"
    and card: "card (set (marked s) - M0) = Suc k"
    and em: "emitted_inv vc (set (marked s) - {c}) s"
    by (auto simp: walk_inv_def)
  note fresh = walk_next_fresh [OF R w ne, folded nc_def]
  have rv: "(tgt vc c, rcp vc c) \<in> set (darts vc)" using rev_dart(1) [OF R c(1)] .
  have fnc: "fst nc = tgt vc c" by (simp add: nc_def)
  have nc_eq: "nc = (tgt vc c, snd nc)" using fnc by (metis prod.collapse)
  \<comment> \<open>the reads of the body\<close>
  have r1: "idx (vc_nu vc) (fst c) = Some (vc_nu vc ! nat (fst c))"
    using dart_reads(1) [OF S c(1)] .
  have "(fst c, vc_nu vc ! nat (fst c) + snd c) \<notin> set (darts vc)"
    using c(1) by (auto simp: in_darts)
  then have "(fst c, vc_nu vc ! nat (fst c) + snd c) \<notin> set (marked s)"
    using sub by blast
  then have r2: "idx2 (ed s) (fst c) (vc_nu vc ! nat (fst c) + snd c) = Some (rcp vc c)"
    using agrees_read [OF ag dart_reads(3) [OF S c(1)]] by simp
  have "idx (vc_nu vc) (tgt vc c) = Some (vc_nu vc ! nat (tgt vc c))"
    using dart_reads(1) [OF S rv] by simp
  then have r3: "cycle_up (vc_nu vc) (rcp vc c) (tgt vc c) = Some (snd nc)"
    by (simp add: cycle_up_def nc_def nxt_def)
  have r4: "idx points (fst d0) = Some (points ! nat (fst d0))"
    using d0(1) by (intro in_range_points [OF pts]) (auto simp: in_darts)
  have r5: "idx points (fst c) = Some (points ! nat (fst c))"
    using c(1) by (intro in_range_points [OF pts]) (auto simp: in_darts)
  have r6: "idx points (tgt vc c) = Some (points ! nat (tgt vc c))"
    using rv by (intro in_range_points [OF pts]) (auto simp: in_darts)
  have orig: "idx2 (vc_ed vc) (tgt vc c) (snd nc) = Some (tgt vc nc)"
    using dart_reads(2) [OF S fresh(1)] fnc by simp
  have notin: "(tgt vc c, snd nc) \<notin> set (marked s)"
    using fresh(2) nc_eq by simp
  have r7: "idx2 (ed s) (tgt vc c) (snd nc) = Some (tgt vc nc)"
    using agrees_read [OF ag orig] notin by simp
  have step: "face_step (vc_nu vc) points (fst d0) (fst c, snd c, tgt vc c, s)
      = Some (fst nc, snd nc, tgt vc nc, s')"
    by (simp add: face_step_def r1 r2 r3 r4 r5 r6 r7 Let_def s'_def s1_def fnc)
  \<comment> \<open>the state after the body\<close>
  have ms': "marked s' = marked s @ [nc]"
    using nc_eq by (simp add: s'_def s1_def mark_def fnc)
  have eds': "ed s' = upd2 (ed s) (tgt vc c) (snd nc) (- 1 - tgt vc nc)"
    by (simp add: s'_def s1_def mark_def fnc)
  have ems': "emitted s' = emitted s @ [(fst d0, fst c, tgt vc c)]"
    by (simp add: s'_def s1_def mark_def)
  have ag': "agrees vc (set (marked s')) (ed s')"
    using agrees_mark [OF ag orig notin] nc_eq by (simp add: ms' eds')
  let ?W = "set (marked s) - M0"
  have ncW: "nc \<notin> ?W" using fresh(2) by simp
  have cW: "c \<in> ?W" using c by simp
  have W': "set (marked s') - M0 = insert nc ?W"
    using fresh(2) M0(1) by (auto simp: ms')
  have "nxt vc ` ?W = insert nc (nxt vc ` (?W - {c}))"
    using cW by (auto simp: nc_def)
  then have img': "nxt vc ` (set (marked s') - M0 - {nc}) = set (marked s') - M0 - {d0}"
    using img ncW fresh(3) by (auto simp: W')
  have card': "card (set (marked s') - M0) = Suc (Suc k)"
    using card ncW by (simp add: W')
  from em obtain ds where ds: "distinct ds" "set ds \<subseteq> set (marked s) - {c}"
    "map (\<lambda>(a, b, c). (b, c)) (emitted s) = map (\<lambda>d. (fst d, tgt vc d)) ds"
    by (auto simp: emitted_inv_def)
  have "distinct (ds @ [c])" "set (ds @ [c]) \<subseteq> set (marked s') - {nc}"
    "map (\<lambda>(a, b, c). (b, c)) (emitted s') = map (\<lambda>d. (fst d, tgt vc d)) (ds @ [c])"
    using ds c(2) fresh(2) by (auto simp: ms' ems')
  then have em': "emitted_inv vc (set (marked s') - {nc}) s'"
    unfolding emitted_inv_def by blast
  have "walk_inv vc M0 d0 (Suc k) nc s'"
    unfolding walk_inv_def
    using fresh d0 dist sub M0 ag' img' card' em' ck
    by (auto simp: ms' nc_def)
  moreover have "set (marked s') = insert nc (set (marked s))"
    by (simp add: ms')
  ultimately show ?thesis using step unfolding nc_def by blast
qed

lemma walk_exit:
  assumes R: "reciprocal vc" and F: "simple_faces vc"
    and w: "walk_inv vc M0 d0 k c s" and eq: "tgt vc c = fst d0"
  shows "traversal_inv vc s"
proof -
  from w have c: "c \<in> set (darts vc)" "c \<in> set (marked s)" "c \<notin> M0"
    and ck: "c = (nxt vc ^^ k) d0"
    and d0: "d0 \<in> set (darts vc)" "d0 \<in> set (marked s)" "d0 \<notin> M0"
    and ag: "agrees vc (set (marked s)) (ed s)"
    and dist: "distinct (marked s)"
    and sub: "set (marked s) \<subseteq> set (darts vc)"
    and M0: "M0 \<subseteq> set (marked s)" "closed_marks vc M0"
    and img: "nxt vc ` (set (marked s) - M0 - {c}) = set (marked s) - M0 - {d0}"
    and card: "card (set (marked s) - M0) = Suc k"
    and em: "emitted_inv vc (set (marked s) - {c}) s"
    by (auto simp: walk_inv_def)
  let ?W = "set (marked s) - M0"
  have "card ?W \<le> card (set (darts vc))"
    using sub by (intro card_mono) auto
  also have "\<dots> = length (darts vc)"
    using distinct_darts by (simp add: distinct_card)
  finally have k: "Suc k \<in> {1 .. length (darts vc)}"
    using card by simp
  have "fst ((nxt vc ^^ Suc k) d0) = fst d0"
    using eq ck by simp
  with F d0(1) k have "(nxt vc ^^ Suc k) d0 = d0"
    unfolding simple_faces_def by blast
  then have ret: "nxt vc c = d0" using ck by simp
  have "nxt vc ` ?W = insert (nxt vc c) (nxt vc ` (?W - {c}))"
    using c by auto
  then have imgW: "nxt vc ` ?W = ?W"
    using img ret d0 by auto
  have "closed_marks vc (set (marked s))"
    unfolding closed_marks_def
  proof (intro ballI iffI)
    fix d assume d: "d \<in> set (darts vc)" "d \<in> set (marked s)"
    show "nxt vc d \<in> set (marked s)"
    proof (cases "d \<in> M0")
      case True
      then have "nxt vc d \<in> M0" using M0(2) d(1) by (simp add: closed_marks_def)
      then show ?thesis using M0(1) by blast
    next
      case False
      then have "nxt vc d \<in> nxt vc ` ?W" using d(2) by blast
      then show ?thesis unfolding imgW by simp
    qed
  next
    fix d assume d: "d \<in> set (darts vc)" "nxt vc d \<in> set (marked s)"
    show "d \<in> set (marked s)"
    proof (cases "nxt vc d \<in> M0")
      case True
      then have "d \<in> M0" using M0(2) d(1) by (simp add: closed_marks_def)
      then show ?thesis using M0(1) by blast
    next
      case False
      then have "nxt vc d \<in> nxt vc ` ?W" using d(2) imgW by simp
      then obtain e where e: "e \<in> ?W" "nxt vc e = nxt vc d" by (metis imageE)
      then have "e \<in> set (darts vc)" using sub by auto
      from nxt_inj [OF R this d(1) e(2)] e(1) show ?thesis by simp
    qed
  qed
  moreover have "emitted_inv vc (set (marked s)) s"
    using em unfolding emitted_inv_def by blast
  ultimately show ?thesis
    using ag dist sub by (simp add: traversal_inv_def)
qed

lemma walk_total:
  assumes S: "table_shape vc" and R: "reciprocal vc" and F: "simple_faces vc"
    and pts: "vc_p vc \<le> int (length points)"
  shows "walk_inv vc M0 d0 k c s \<Longrightarrow>
    \<exists>s'. face_loop (vc_nu vc) points (fst d0) (fst c, snd c, tgt vc c, s) = Some (Inr s')
        \<and> traversal_inv vc s' \<and> set (marked s) \<subseteq> set (marked s')"
proof (induction "card (set (darts vc) - set (marked s))" arbitrary: k c s rule: less_induct)
  case less
  show ?case
  proof (cases "tgt vc c = fst d0")
    case True
    have "face_loop (vc_nu vc) points (fst d0) (fst c, snd c, tgt vc c, s) = Some (Inr s)"
      using True by (subst face_loop.simps) simp
    then show ?thesis using walk_exit [OF R F less.prems True] by blast
  next
    case False
    from walk_step [OF S R pts less.prems False] obtain s1 where
      step: "face_step (vc_nu vc) points (fst d0) (fst c, snd c, tgt vc c, s)
            = Some (fst (nxt vc c), snd (nxt vc c), tgt vc (nxt vc c), s1)"
      and w1: "walk_inv vc M0 d0 (Suc k) (nxt vc c) s1"
      and m1: "set (marked s1) = insert (nxt vc c) (set (marked s))"
      by blast
    have fresh: "nxt vc c \<in> set (darts vc)" "nxt vc c \<notin> set (marked s)"
      using walk_next_fresh [OF R less.prems False] by simp_all
    have "set (darts vc) - set (marked s1) \<subset> set (darts vc) - set (marked s)"
      using fresh m1 by auto
    then have "card (set (darts vc) - set (marked s1)) < card (set (darts vc) - set (marked s))"
      by (intro psubset_card_mono) auto
    from less.hyps [OF this w1] obtain s' where
      s': "face_loop (vc_nu vc) points (fst d0)
             (fst (nxt vc c), snd (nxt vc c), tgt vc (nxt vc c), s1) = Some (Inr s')"
        "traversal_inv vc s'" "set (marked s1) \<subseteq> set (marked s')"
      by blast
    have "face_loop (vc_nu vc) points (fst d0) (fst c, snd c, tgt vc c, s) = Some (Inr s')"
      using False step s'(1) by (subst face_loop.simps) simp
    then show ?thesis using s'(2,3) m1 by blast
  qed
qed

lemma simple_from_iff:
  "simple_from vc d e n \<longleftrightarrow> (\<forall>k < n. fst ((nxt vc ^^ k) e) = fst d \<longrightarrow> (nxt vc ^^ k) e = d)"
proof (induction n arbitrary: e)
  case 0
  then show ?case by simp
next
  case (Suc n)
  show ?case
  proof
    assume a: "simple_from vc d e (Suc n)"
    show "\<forall>k < Suc n. fst ((nxt vc ^^ k) e) = fst d \<longrightarrow> (nxt vc ^^ k) e = d"
    proof (intro allI impI)
      fix k assume k: "k < Suc n" "fst ((nxt vc ^^ k) e) = fst d"
      show "(nxt vc ^^ k) e = d"
      proof (cases k)
        case 0
        with a k show ?thesis by simp
      next
        case (Suc j)
        with a k Suc.IH [of "nxt vc e"] show ?thesis
          by (simp add: funpow_swap1)
      qed
    qed
  next
    assume a: "\<forall>k < Suc n. fst ((nxt vc ^^ k) e) = fst d \<longrightarrow> (nxt vc ^^ k) e = d"
    then have "fst e = fst d \<longrightarrow> e = d" by force
    moreover have "\<forall>k < n. fst ((nxt vc ^^ k) (nxt vc e)) = fst d \<longrightarrow> (nxt vc ^^ k) (nxt vc e) = d"
    proof (intro allI impI)
      fix k assume "k < n" "fst ((nxt vc ^^ k) (nxt vc e)) = fst d"
      with a [rule_format, of "Suc k"] show "(nxt vc ^^ k) (nxt vc e) = d"
        by (simp add: funpow_swap1)
    qed
    ultimately show "simple_from vc d e (Suc n)"
      using Suc.IH [of "nxt vc e"] by simp
  qed
qed

lemma simple_facesI:
  assumes "list_all (\<lambda>d. simple_from vc d (nxt vc d) (length (darts vc))) (darts vc)"
  shows "simple_faces vc"
  unfolding simple_faces_def
proof (intro ballI impI)
  fix d k assume d: "d \<in> set (darts vc)" and k: "k \<in> {1 .. length (darts vc)}"
    and e: "fst ((nxt vc ^^ k) d) = fst d"
  from assms d have "simple_from vc d (nxt vc d) (length (darts vc))"
    by (simp add: list_all_iff)
  then have *: "\<forall>j < length (darts vc). fst ((nxt vc ^^ j) (nxt vc d)) = fst d
      \<longrightarrow> (nxt vc ^^ j) (nxt vc d) = d"
    by (simp add: simple_from_iff)
  from k obtain j where j: "k = Suc j" "j < length (darts vc)"
    by (cases k) auto
  with * e show "(nxt vc ^^ k) d = d"
    by (simp add: funpow_swap1)
qed

lemma face_total:
  assumes S: "table_shape vc" and R: "reciprocal vc" and L: "loop_free vc"
    and F: "simple_faces vc" and pts: "vc_p vc \<le> int (length points)"
    and inv: "traversal_inv vc s" and d: "(ii, jj) \<in> set (darts vc)"
  shows "\<exists>s'. face (vc_nu vc) points ii jj s = Some (Inr s') \<and> traversal_inv vc s'
           \<and> set (marked s) \<subseteq> set (marked s') \<and> (ii, jj) \<in> set (marked s')"
proof -
  define d0 where "d0 = (ii, jj)"
  define d1 where "d1 = nxt vc d0"
  have d0: "d0 \<in> set (darts vc)" "fst d0 = ii" "snd d0 = jj"
    using d by (simp_all add: d0_def)
  from inv have ag: "agrees vc (set (marked s)) (ed s)" and dist: "distinct (marked s)"
    and sub: "set (marked s) \<subseteq> set (darts vc)" and cl: "closed_marks vc (set (marked s))"
    and em: "emitted_inv vc (set (marked s)) s"
    by (auto simp: traversal_inv_def)
  have rv: "(tgt vc d0, rcp vc d0) \<in> set (darts vc)" using rev_dart(1) [OF R d0(1)] .
  then have t0: "0 \<le> tgt vc d0" by (simp add: in_darts)
  have orig0: "idx2 (vc_ed vc) ii jj = Some (tgt vc d0)"
    using dart_reads(2) [OF S d0(1)] d0 by simp
  show ?thesis
  proof (cases "d0 \<in> set (marked s)")
    case True
    then have "idx2 (ed s) ii jj = Some (- 1 - tgt vc d0)"
      using agrees_read [OF ag orig0] by (simp add: d0_def)
    then have "face (vc_nu vc) points ii jj s = Some (Inr s)"
      using t0 by (simp add: face_def)
    then show ?thesis using inv True by (auto simp: d0_def)
  next
    case False
    define s1 where "s1 = mark ii jj (tgt vc d0) s"
    define s2 where "s2 = mark (fst d1) (snd d1) (tgt vc d1) s1"
    have r0: "idx2 (ed s) ii jj = Some (tgt vc d0)"
      using agrees_read [OF ag orig0] False by (simp add: d0_def)
    have ms1: "marked s1 = marked s @ [d0]" and eds1: "ed s1 = upd2 (ed s) ii jj (- 1 - tgt vc d0)"
      by (simp_all add: s1_def mark_def d0_def)
    have ag1: "agrees vc (set (marked s1)) (ed s1)"
      using agrees_mark [OF ag orig0] False by (simp add: ms1 eds1 d0_def)
    have r1: "idx (vc_nu vc) ii = Some (vc_nu vc ! nat ii)"
      using dart_reads(1) [OF S d0(1)] d0 by simp
    have "(ii, vc_nu vc ! nat ii + jj) \<notin> set (darts vc)"
      using d by (auto simp: in_darts)
    then have "(ii, vc_nu vc ! nat ii + jj) \<notin> set (marked s1)"
      using sub d0(1) by (auto simp: ms1)
    then have r2: "idx2 (ed s1) ii (vc_nu vc ! nat ii + jj) = Some (rcp vc d0)"
      using agrees_read [OF ag1] dart_reads(3) [OF S d0(1)] d0 by simp
    have "idx (vc_nu vc) (tgt vc d0) = Some (vc_nu vc ! nat (tgt vc d0))"
      using dart_reads(1) [OF S rv] by simp
    then have r3: "cycle_up (vc_nu vc) (rcp vc d0) (tgt vc d0) = Some (snd d1)"
      by (simp add: cycle_up_def d1_def nxt_def)
    have d1: "d1 \<in> set (darts vc)" "fst d1 = tgt vc d0"
      using nxt_in_darts [OF R d0(1)] by (simp_all add: d1_def)
    have d1_eq: "d1 = (tgt vc d0, snd d1)" using d1(2) by (metis prod.collapse)
    have "tgt vc d0 \<noteq> fst d0" using L d0(1) by (simp add: loop_free_def)
    then have d10: "d1 \<noteq> d0" using d1(2) by auto
    have d1M: "d1 \<notin> set (marked s)"
      using cl d0(1) False by (simp add: closed_marks_def d1_def)
    have notin1: "(tgt vc d0, snd d1) \<notin> set (marked s1)"
      using d1M d10 d1_eq by (simp add: ms1)
    have orig1: "idx2 (vc_ed vc) (tgt vc d0) (snd d1) = Some (tgt vc d1)"
      using dart_reads(2) [OF S d1(1)] d1(2) by simp
    have r4: "idx2 (ed s1) (tgt vc d0) (snd d1) = Some (tgt vc d1)"
      using agrees_read [OF ag1 orig1] notin1 by simp
    have ms2: "marked s2 = marked s @ [d0, d1]"
      using d1_eq by (simp add: s2_def mark_def ms1 d1(2))
    have eds2: "ed s2 = upd2 (ed s1) (tgt vc d0) (snd d1) (- 1 - tgt vc d1)"
      by (simp add: s2_def mark_def d1(2))
    have ems2: "emitted s2 = emitted s"
      by (simp add: s2_def s1_def mark_def)
    have ag2: "agrees vc (set (marked s2)) (ed s2)"
      using agrees_mark [OF ag1 orig1 notin1] d1_eq by (simp add: ms2 ms1 eds2 insert_commute)
    have W: "set (marked s2) - set (marked s) = {d0, d1}"
      using False d1M by (auto simp: ms2)
    have img: "nxt vc ` (set (marked s2) - set (marked s) - {d1})
        = set (marked s2) - set (marked s) - {d0}"
      using d10 by (auto simp: W d1_def)
    have card: "card (set (marked s2) - set (marked s)) = Suc 1"
      using d10 by (simp add: W)
    have em2: "emitted_inv vc (set (marked s2) - {d1}) s2"
      using em d1M unfolding emitted_inv_def ems2 by (auto simp: ms2)
    have w: "walk_inv vc (set (marked s)) d0 1 d1 s2"
      unfolding walk_inv_def
      using d1(1) d0(1) ag2 dist sub False d1M d10 cl img card em2
      by (auto simp: ms2 d1_def)
    from walk_total [OF S R F pts w] obtain s' where
      s': "face_loop (vc_nu vc) points (fst d0) (fst d1, snd d1, tgt vc d1, s2) = Some (Inr s')"
        "traversal_inv vc s'" "set (marked s2) \<subseteq> set (marked s')"
      by blast
    have "face (vc_nu vc) points ii jj s = Some (Inr s')"
      using s'(1) t0
      by (simp add: face_def r0 r1 r2 r3 r4 Let_def s1_def [symmetric] d1(2) d0(2)
          s2_def [symmetric, unfolded d1(2)])
    then show ?thesis using s'(2,3) by (auto simp: ms2 d0_def)
  qed
qed

lemma for_jj_total:
  assumes S: "table_shape vc" and R: "reciprocal vc" and L: "loop_free vc"
    and F: "simple_faces vc" and pts: "vc_p vc \<le> int (length points)"
  shows "traversal_inv vc s \<Longrightarrow> \<forall>jj \<in> set jjs. (ii, jj) \<in> set (darts vc) \<Longrightarrow>
    \<exists>s'. for_jj (vc_nu vc) points ii jjs s = Some (Inr s') \<and> traversal_inv vc s'
        \<and> set (marked s) \<subseteq> set (marked s') \<and> (\<forall>jj \<in> set jjs. (ii, jj) \<in> set (marked s'))"
proof (induction jjs arbitrary: s)
  case Nil
  then show ?case by simp
next
  case (Cons jj jjs)
  from Cons.prems(2) have d: "(ii, jj) \<in> set (darts vc)" by simp
  from face_total [OF S R L F pts Cons.prems(1) d] obtain s1 where
    s1: "face (vc_nu vc) points ii jj s = Some (Inr s1)" "traversal_inv vc s1"
      "set (marked s) \<subseteq> set (marked s1)" "(ii, jj) \<in> set (marked s1)"
    by blast
  from Cons.IH [OF s1(2)] Cons.prems(2) obtain s' where
    s': "for_jj (vc_nu vc) points ii jjs s1 = Some (Inr s')" "traversal_inv vc s'"
      "set (marked s1) \<subseteq> set (marked s')" "\<forall>jj \<in> set jjs. (ii, jj) \<in> set (marked s')"
    by auto
  have "for_jj (vc_nu vc) points ii (jj # jjs) s = Some (Inr s')"
    using s1(1) s'(1) by simp
  then show ?case using s1(3,4) s'(2,3,4) by auto
qed

lemma for_ii_total:
  assumes S: "table_shape vc" and R: "reciprocal vc" and L: "loop_free vc"
    and F: "simple_faces vc" and pts: "vc_p vc \<le> int (length points)"
  shows "traversal_inv vc s \<Longrightarrow> \<forall>ii \<in> set iis. 0 \<le> ii \<and> ii < vc_p vc \<Longrightarrow>
    \<exists>s'. for_ii (vc_nu vc) points iis s = Some (Inr s') \<and> traversal_inv vc s'
        \<and> set (marked s) \<subseteq> set (marked s')
        \<and> (\<forall>d \<in> set (darts vc). fst d \<in> set iis \<longrightarrow> d \<in> set (marked s'))"
proof (induction iis arbitrary: s)
  case Nil
  then show ?case by simp
next
  case (Cons ii iis)
  from Cons.prems(2) have ii: "0 \<le> ii" "ii < vc_p vc" by simp_all
  have r: "idx (vc_nu vc) ii = Some (vc_nu vc ! nat ii)"
    using shape_rows(1) [OF S ii] ii by (simp add: idx_def)
  have "\<forall>jj \<in> set [0 .. vc_nu vc ! nat ii - 1]. (ii, jj) \<in> set (darts vc)"
    using ii by (auto simp: in_darts)
  from for_jj_total [OF S R L F pts Cons.prems(1) this] obtain s1 where
    s1: "for_jj (vc_nu vc) points ii [0 .. vc_nu vc ! nat ii - 1] s = Some (Inr s1)"
      "traversal_inv vc s1" "set (marked s) \<subseteq> set (marked s1)"
      "\<forall>jj \<in> set [0 .. vc_nu vc ! nat ii - 1]. (ii, jj) \<in> set (marked s1)"
    by blast
  from Cons.IH [OF s1(2)] Cons.prems(2) obtain s' where
    s': "for_ii (vc_nu vc) points iis s1 = Some (Inr s')" "traversal_inv vc s'"
      "set (marked s1) \<subseteq> set (marked s')"
      "\<forall>d \<in> set (darts vc). fst d \<in> set iis \<longrightarrow> d \<in> set (marked s')"
    by auto
  have "for_ii (vc_nu vc) points (ii # iis) s = Some (Inr s')"
    using r s1(1) s'(1) by simp
  moreover have "d \<in> set (marked s')" if "d \<in> set (darts vc)" "fst d \<in> set (ii # iis)" for d
  proof (cases "fst d = ii")
    case True
    then have "(ii, snd d) \<in> set (marked s1)"
      using s1(4) that(1) by (auto simp: in_darts)
    then show ?thesis using s'(3) True by (metis prod.collapse subsetD)
  next
    case False
    then show ?thesis using that s'(4) by auto
  qed
  ultimately show ?case using s1(3) s'(2,3) by auto
qed

lemma traversal_inv_start:
  "traversal_inv vc (start vc)"
  by (auto simp: traversal_inv_def start_def agrees_def closed_marks_def emitted_inv_def
      split: option.splits)

lemma extract_faces_total:
  assumes S: "table_shape vc" and R: "reciprocal vc" and L: "loop_free vc"
    and F: "simple_faces vc" and pts: "vc_p vc \<le> int (length points)"
  shows "\<exists>s'. extract_faces points vc = Some (Inr s') \<and> traversal_inv vc s'
          \<and> set (marked s') = set (darts vc)"
proof -
  have "\<forall>ii \<in> set [1 .. vc_p vc - 1]. 0 \<le> ii \<and> ii < vc_p vc" by auto
  from for_ii_total [OF S R L F pts traversal_inv_start this] obtain s' where
    s': "for_ii (vc_nu vc) points [1 .. vc_p vc - 1] (start vc) = Some (Inr s')"
      "traversal_inv vc s'"
      "\<forall>d \<in> set (darts vc). fst d \<in> set [1 .. vc_p vc - 1] \<longrightarrow> d \<in> set (marked s')"
    by blast
  have sub: "set (marked s') \<subseteq> set (darts vc)" and cl: "closed_marks vc (set (marked s'))"
    using s'(2) by (auto simp: traversal_inv_def)
  have "d \<in> set (marked s')" if d: "d \<in> set (darts vc)" for d
  proof (cases "fst d = 0")
    case False
    then show ?thesis using s'(3) d by (auto simp: in_darts)
  next
    case True
    have n: "nxt vc d \<in> set (darts vc)" using nxt_in_darts [OF R d] .
    have "tgt vc d \<noteq> 0" using L d True by (auto simp: loop_free_def)
    then have "fst (nxt vc d) \<noteq> 0" by simp
    then have "nxt vc d \<in> set (marked s')" using s'(3) n by (auto simp: in_darts)
    then show ?thesis using cl d by (simp add: closed_marks_def)
  qed
  then have "set (marked s') = set (darts vc)" using sub by blast
  then show ?thesis using s'(1,2) by (auto simp: extract_faces_def)
qed

lemma wf_box: "wf_cell box_cell"
proof -
  have "table_shape box_cell" by code_simp
  moreover have "reciprocal box_cell" by code_simp
  moreover have "loop_free box_cell" by code_simp
  moreover have "list_all (\<lambda>d. simple_from box_cell d (nxt box_cell d) (length (darts box_cell)))
      (darts box_cell)"
    by code_simp
  then have "simple_faces box_cell" by (rule simple_facesI)
  ultimately show ?thesis by (simp add: wf_cell_def)
qed

lemma no_parallel_box: "no_parallel box_cell"
  by code_simp

lemma box_surface_2: "cell_surface_2 six_decimals box_cell = Some (Inr box_surface)"
  by code_simp

lemma box_surface_1: "cell_surface_1 six_decimals box_cell = Some (Inr box_surface)"
  by code_simp

lemma emitted_distinct:
  assumes "no_parallel vc" "emitted_inv vc (set (darts vc)) s"
  shows "distinct (emitted s)"
proof -
  from assms(2) obtain ds where ds: "distinct ds" "set ds \<subseteq> set (darts vc)"
    "map (\<lambda>(a, b, c). (b, c)) (emitted s) = map (\<lambda>d. (fst d, tgt vc d)) ds"
    by (auto simp: emitted_inv_def)
  have "inj_on (\<lambda>d. (fst d, tgt vc d)) (set ds)"
    using assms(1) ds(2) unfolding no_parallel_def inj_on_def by blast
  then have "distinct (map (\<lambda>d. (fst d, tgt vc d)) ds)"
    using ds(1) by (simp add: distinct_map)
  then have "distinct (map (\<lambda>(a, b, c). (b, c)) (emitted s))"
    using ds(3) by simp
  then show ?thesis by (simp add: distinct_map)
qed

lemma marked_entries:
  assumes "table_shape vc" "agrees vc (set (darts vc)) e" "d \<in> set (darts vc)"
  shows "idx2 e (fst d) (snd d) = Some (- 1 - tgt vc d)"
  using agrees_read [OF assms(2) dart_reads(2) [OF assms(1,3)]] assms(3) by simp

lemma surface_of_text:
  assumes "surface_of (Some points) vc = Some (Inr surface)"
  shows "\<exists>s. extract_faces points vc = Some (Inr s) \<and> text_inv points s
           \<and> surface = polyhedralsurface s @ '')''"
proof -
  from assms obtain s where s: "extract_faces points vc = Some (Inr s)"
    "surface = polyhedralsurface s @ '')''"
    by (auto simp: surface_of_def split: option.splits sum.splits)
  from extract_faces_text [OF s(1)] have "text_inv points s" by simp
  with s show ?thesis by blast
qed

lemma box_surface_of: "surface_of (Some box_points) box_cell = Some (Inr box_surface)"
  by code_simp

lemma setThreshold_ge: "2 \<le> setThreshold e"
  by (simp add: setThreshold_def)

lemma axis_length_ge: "2 \<le> axis_length v"
  by (simp add: axis_length_def setThreshold_ge)

lemma cells_2_pos:
  assumes "0 < length x"
  shows "0 < cells_2 x y z"
proof -
  have "0 < axis_length x" "0 < axis_length y" "0 < axis_length z"
    using axis_length_ge [of x] axis_length_ge [of y] axis_length_ge [of z] by linarith+
  then have "0 < 5.6 * axis_length x * axis_length y * axis_length z"
    by simp
  with assms have "0 < real (length x) / (5.6 * axis_length x * axis_length y * axis_length z)"
    by simp
  then show ?thesis
    unfolding cells_2_def by (rule real_root_gt_zero [rotated]) simp
qed

lemma int_of_double_ge1:
  assumes "1 < d" "d < 2 ^ 31"
  shows "\<exists>m. int_of_double d = Some m \<and> 1 \<le> m"
proof -
  have "1 \<le> \<lfloor>d\<rfloor>" using assms(1) by linarith
  moreover have "\<lfloor>d\<rfloor> < 2 ^ 31" using assms(2) by (simp add: floor_less_iff)
  ultimately show ?thesis using assms(1) by (simp add: int_of_double_def)
qed

lemma cells_1_ge:
  assumes "2 \<le> n"
  shows "2 \<le> cells_1 n"
proof -
  have "root 3 1 < root 3 (real n)"
    using assms by simp
  then have "1 < root 3 (real n)" by simp
  then show ?thesis unfolding cells_1_def by linarith
qed

lemma root3_eighth: "root 3 (1 / 8) = 1 / 2"
proof -
  have "root 3 ((1 / 2) ^ 3) = (1 / 2 :: real)"
    by (rule real_root_power_cancel) simp_all
  then show ?thesis by (simp add: power3_eq_cube)
qed

lemma cells_2_example:
  "cells_2 [0, 5 / 2, 0, 0, 0, 0, 0] [0, 2, 0, 0, 0, 0, 0] [0, 2, 0, 0, 0, 0, 0] = 1 / 2"
  by (simp add: cells_2_def axis_length_def setThreshold_def root3_eighth)

lemma cells_2_big:
  "1 / 10 ^ 6 \<le> cells_2 [0, 10 ^ 16] [0, 0] [0, 0]"
proof -
  have arg: "real (length [0, 10 ^ 16 :: real])
      / (5.6 * axis_length [0, 10 ^ 16] * axis_length [0, 0] * axis_length [0, 0])
      = 1 / (112 * 10 ^ 15)"
    by (simp add: axis_length_def setThreshold_def)
  have "((1 / 10 ^ 6) ^ 3 :: real) \<le> 1 / (112 * 10 ^ 15)"
    by (simp add: power_divide)
  then have "root 3 ((1 / 10 ^ 6) ^ 3) \<le> root 3 (1 / (112 * 10 ^ 15))"
    by (rule real_root_le_mono [rotated]) simp
  moreover have "root 3 ((1 / 10 ^ 6) ^ 3) = (1 / 10 ^ 6 :: real)"
    by (rule real_root_power_cancel) simp_all
  ultimately show ?thesis
    unfolding cells_2_def arg by (simp only:)
qed

lemma grid_2_big: "grid_2 [0, 10 ^ 16] [0, 0] [0, 0] = None"
proof -
  define c where "c = cells_2 [0, 10 ^ 16] [0, 0] [0, 0]"
  have ax: "axis_length [0, 10 ^ 16] = 10 ^ 16"
    by (simp add: axis_length_def setThreshold_def)
  have "1 / 10 ^ 6 \<le> c"
    unfolding c_def by (rule cells_2_big)
  then have "(10 ^ 16) * (1 / 10 ^ 6) \<le> (10 ^ 16) * c"
    by (rule mult_left_mono) simp
  then have "(2 ^ 31 :: real) \<le> 10 ^ 16 * c + 1"
    by simp
  then have "int_of_double (10 ^ 16 * c + 1) = None"
    by (simp add: int_of_double_def Let_def le_floor_iff not_less del: of_int_power)
  then show ?thesis
    unfolding grid_2_def Let_def ax c_def by (simp only: option.case)
qed

lemma surface_of_no_stop:
  assumes "surface_of points vc = Some (Inl e)"
  shows "e = Undefined"
proof (cases points)
  case None
  with assms show ?thesis by (simp add: surface_of_def)
next
  case (Some ps)
  with assms have "extract_faces ps vc = Some (Inl e)"
    by (auto simp: surface_of_def split: option.splits sum.splits)
  from extract_faces_text [OF this] show ?thesis by simp
qed

lemma cell_loop_1_no_stop:
  "cell_loop_1 ts cell ids k cg = Some (Inl e) \<Longrightarrow> e = Undefined"
proof (induction ids arbitrary: k cg)
  case Nil
  then show ?case by simp
next
  case (Cons i ids)
  then show ?case
    by (auto simp: cell_surface_1_def store_def dest: surface_of_no_stop
        split: option.splits sum.splits if_splits)
qed

lemma cell_loop_2_no_stop:
  "cell_loop_2 ts cell ids k cg = Some (Inl e) \<Longrightarrow> e = Undefined"
proof (induction ids arbitrary: k cg)
  case Nil
  then show ?case by simp
next
  case (Cons i ids)
  then show ?case
    by (auto simp: cell_surface_2_def store_def dest: surface_of_no_stop
        split: option.splits sum.splits if_splits)
qed

lemma check_input_None: "check_input x y z r = None \<longleftrightarrow> valid_input x y z r"
  by (auto simp: check_input_def valid_input_def Let_def)

lemma grid_2_example: "grid_2 [0, 0, 2] [0, 0, 0] [0, 0, 0] = Some (1, 1, 1)"
proof -
  define c where "c = cells_2 [0, 0, 2] [0, 0, 0] [0, 0, 0]"
  have ax: "axis_length [0, 0, 2] = 2" "axis_length [0, 0, 0] = 2"
    by (simp_all add: axis_length_def setThreshold_def)
  have "0 < c" unfolding c_def by (rule cells_2_pos) simp
  have arg: "real (length [0, 0, 2 :: real])
      / (5.6 * axis_length [0, 0, 2] * axis_length [0, 0, 0] * axis_length [0, 0, 0])
      = 15 / 224"
    by (simp add: ax)
  have "(15 / 224 :: real) < (1 / 2) ^ 3" by (simp add: power_divide)
  then have "root 3 (15 / 224) < root 3 ((1 / 2) ^ 3)"
    by (rule real_root_less_mono [rotated]) simp
  moreover have "root 3 ((1 / 2) ^ 3) = (1 / 2 :: real)"
    by (rule real_root_power_cancel) simp_all
  ultimately have "c < 1 / 2"
    unfolding c_def cells_2_def arg by (simp only:)
  with \<open>0 < c\<close> have "\<lfloor>2 * c + 1\<rfloor> = 1" by linarith
  with \<open>0 < c\<close> have "int_of_double (2 * c + 1) = Some 1"
    by (simp add: int_of_double_def)
  then show ?thesis
    unfolding grid_2_def Let_def ax c_def by (simp only: option.case)
qed

lemma container_2_example:
  "container_2 [0, 0, 2] [0, 0, 0] [0, 0, 0] 2
     = Some \<lparr> con_box = container_box [0, 0, 2] [0, 0, 0] [0, 0, 0] 2,
              con_nx = 1, con_ny = 1, con_nz = 1 \<rparr>"
  by (simp add: container_2_def grid_2_example)

lemma three_more:
  assumes "length vs = 3 * Suc n"
  obtains a b c rest where "vs = a # b # c # rest" "length rest = 3 * n"
proof -
  from assms obtain a r1 where r1: "vs = a # r1" "length r1 = Suc (Suc (3 * n))"
    by (cases vs) auto
  then obtain b r2 where r2: "r1 = b # r2" "length r2 = Suc (3 * n)"
    by (cases r1) auto
  then obtain c r3 where r3: "r2 = c # r3" "length r3 = 3 * n"
    by (cases r2) auto
  from r1 r2 r3 that show ?thesis by simp
qed

lemma points_2_length:
  "length vs = 3 * n \<Longrightarrow> \<exists>ps. points_2 vs = Some ps \<and> length ps = n"
proof (induction n arbitrary: vs)
  case 0
  then show ?case by simp
next
  case (Suc n)
  from three_more [OF Suc.prems] obtain a b c rest where
    vs: "vs = a # b # c # rest" "length rest = 3 * n"
    by blast
  from Suc.IH [OF vs(2)] show ?case by (auto simp: vs(1))
qed

lemma points_1_length:
  "length vs = 3 * n \<Longrightarrow> \<exists>ps. points_1 ts vs = Some ps \<and> length ps = n"
proof (induction n arbitrary: vs)
  case 0
  then show ?case by simp
next
  case (Suc n)
  from three_more [OF Suc.prems] obtain a b c rest where
    vs: "vs = a # b # c # rest" "length rest = 3 * n"
    by blast
  from Suc.IH [OF vs(2)] show ?case by (auto simp: vs(1))
qed

lemma surface_of_total:
  assumes "wf_cell vc" "int (length ps) = vc_p vc"
  shows "\<exists>t. surface_of (Some ps) vc = Some (Inr t)"
proof -
  from assms(1) have S: "table_shape vc" and R: "reciprocal vc" and L: "loop_free vc"
    and F: "simple_faces vc"
    by (simp_all add: wf_cell_def)
  from assms(2) have "vc_p vc \<le> int (length ps)" by simp
  from extract_faces_total [OF S R L F this] show ?thesis
    by (auto simp: surface_of_def)
qed

lemma wf_vertices:
  assumes "wf_cell vc"
  shows "length (vc_vertices vc) = 3 * nat (vc_p vc)" "0 \<le> vc_p vc"
  using assms by (auto simp: wf_cell_def table_shape_def)

lemma cell_surface_2_total:
  assumes "wf_cell vc"
  shows "\<exists>t. cell_surface_2 ts vc = Some (Inr t)"
proof -
  from points_2_length [OF wf_vertices(1) [OF assms]] obtain ps where
    ps: "points_2 (vc_vertices vc) = Some ps" "length ps = nat (vc_p vc)"
    by blast
  have "int (length (map (point ts) ps)) = vc_p vc"
    using ps(2) wf_vertices(2) [OF assms] by simp
  from surface_of_total [OF assms this] show ?thesis
    by (simp add: cell_surface_2_def ps(1))
qed

lemma cell_surface_1_total:
  assumes "wf_cell vc"
  shows "\<exists>t. cell_surface_1 ts vc = Some (Inr t)"
proof -
  from points_1_length [OF wf_vertices(1) [OF assms]] obtain ps where
    ps: "points_1 ts (vc_vertices vc) = Some ps" "length ps = nat (vc_p vc)"
    by blast
  have "int (length ps) = vc_p vc"
    using ps(2) wf_vertices(2) [OF assms] by simp
  from surface_of_total [OF assms this] show ?thesis
    by (simp add: cell_surface_1_def ps(1))
qed

lemma entry_for_total:
  assumes "\<And>vc. c = Some vc \<Longrightarrow> wf_cell vc"
  shows "\<exists>e. entry_for (cell_surface_2 ts) c e"
proof (cases c)
  case None
  then show ?thesis by (simp add: entry_for_def)
next
  case (Some vc)
  with assms cell_surface_2_total [of vc ts] show ?thesis
    by (auto simp: entry_for_def)
qed

lemma cell_loop_2_step:
  assumes "entry_for (cell_surface_2 ts) (cell i) e" "k < length cg"
  shows "cell_loop_2 ts cell (i # ids) k cg = cell_loop_2 ts cell ids (Suc k) (cg[k := e])"
  using assms by (auto simp: entry_for_def store_def split: option.splits)

lemma cell_loop_2_entries:
  assumes "\<And>i vc. i \<in> set ids \<Longrightarrow> cell i = Some vc \<Longrightarrow> wf_cell vc"
  shows "k + length ids \<le> length cg \<Longrightarrow>
    \<exists>out. cell_loop_2 ts cell ids k cg = Some (Inr out) \<and> length out = length cg
      \<and> (\<forall>j < length ids. entry_for (cell_surface_2 ts) (cell (ids ! j)) (out ! (k + j)))
      \<and> (\<forall>j < k. out ! j = cg ! j)"
  using assms
proof (induction ids arbitrary: k cg)
  case Nil
  then show ?case by simp
next
  case (Cons i ids)
  from entry_for_total [of "cell i" ts] Cons.prems(2) obtain e where
    e: "entry_for (cell_surface_2 ts) (cell i) e" by auto
  have k: "k < length cg" using Cons.prems(1) by simp
  have "Suc k + length ids \<le> length (cg[k := e])" using Cons.prems(1) by simp
  from Cons.IH [OF this] Cons.prems(2) obtain out where
    out: "cell_loop_2 ts cell ids (Suc k) (cg[k := e]) = Some (Inr out)"
      "length out = length cg"
      "\<forall>j < length ids. entry_for (cell_surface_2 ts) (cell (ids ! j)) (out ! (Suc k + j))"
      "\<forall>j < Suc k. out ! j = cg[k := e] ! j"
    by auto
  have "out ! k = e" using out(4) k by simp
  then have "\<forall>j < length (i # ids). entry_for (cell_surface_2 ts) (cell ((i # ids) ! j)) (out ! (k + j))"
    using out(3) e by (auto simp: less_Suc_eq_0_disj)
  moreover have "\<forall>j < k. out ! j = cg ! j" using out(4) by simp
  ultimately show ?case
    using out(1,2) cell_loop_2_step [of ts cell i e k cg ids, OF e k] by simp
qed

lemma container_2_big: "container_2 [0, 10 ^ 16] [0, 0] [0, 0] 1 = None"
  using grid_2_big by (simp add: container_2_def)

lemma cell_loop_1_skip:
  assumes "cell i = None"
  shows "cell_loop_1 ts cell (i # ids) k cg = cell_loop_1 ts cell ids k cg"
  using assms by simp

lemma cell_loop_1_store:
  assumes "cell i = Some vc" "cell_surface_1 ts vc = Some (Inr t)" "k < length cg"
  shows "cell_loop_1 ts cell (i # ids) k cg = cell_loop_1 ts cell ids (Suc k) (cg[k := Some t])"
  using assms by (simp add: store_def)

lemma cell_loop_1_packs:
  assumes "\<And>i vc. i \<in> set ids \<Longrightarrow> cell i = Some vc \<Longrightarrow> wf_cell vc"
  shows "k + length (filter (\<lambda>i. cell i \<noteq> None) ids) \<le> length cg \<Longrightarrow>
    \<exists>texts. cell_loop_1 ts cell ids k cg
        = Some (Inr (take k cg @ map Some texts @ drop (k + length texts) cg))
      \<and> list_all2 (\<lambda>i t. \<exists>vc. cell i = Some vc \<and> cell_surface_1 ts vc = Some (Inr t))
           (filter (\<lambda>i. cell i \<noteq> None) ids) texts"
  using assms
proof (induction ids arbitrary: k cg)
  case Nil
  have "cell_loop_1 ts cell [] k cg = Some (Inr (take k cg @ map Some [] @ drop (k + length []) cg))"
    by simp
  then show ?case by (intro exI [of _ "[]"]) simp
next
  case (Cons i ids)
  show ?case
  proof (cases "cell i")
    case None
    with Cons.prems(1) have "k + length (filter (\<lambda>i. cell i \<noteq> None) ids) \<le> length cg"
      by simp
    from Cons.IH [OF this] Cons.prems(2) obtain texts where
      "cell_loop_1 ts cell ids k cg
        = Some (Inr (take k cg @ map Some texts @ drop (k + length texts) cg))"
      "list_all2 (\<lambda>i t. \<exists>vc. cell i = Some vc \<and> cell_surface_1 ts vc = Some (Inr t))
           (filter (\<lambda>i. cell i \<noteq> None) ids) texts"
      by auto
    then show ?thesis using None by (intro exI [of _ texts]) simp
  next
    case (Some vc)
    then have "wf_cell vc" using Cons.prems(2) [of i vc] by simp
    from cell_surface_1_total [OF this] obtain t where
      t: "cell_surface_1 ts vc = Some (Inr t)" by blast
    from Cons.prems(1) Some have k: "k < length cg"
      and "Suc k + length (filter (\<lambda>i. cell i \<noteq> None) ids) \<le> length (cg[k := Some t])"
      by simp_all
    from Cons.IH [OF this(2)] Cons.prems(2) obtain texts where
      texts: "cell_loop_1 ts cell ids (Suc k) (cg[k := Some t])
        = Some (Inr (take (Suc k) (cg[k := Some t]) @ map Some texts
              @ drop (Suc k + length texts) (cg[k := Some t])))"
      "list_all2 (\<lambda>i t. \<exists>vc. cell i = Some vc \<and> cell_surface_1 ts vc = Some (Inr t))
           (filter (\<lambda>i. cell i \<noteq> None) ids) texts"
      by auto
    have "take (Suc k) (cg[k := Some t]) = take k cg @ [Some t]"
      using k by (simp add: take_Suc_conv_app_nth)
    moreover have "drop (Suc k + length texts) (cg[k := Some t]) = drop (k + length (t # texts)) cg"
      by simp
    ultimately have "cell_loop_1 ts cell (i # ids) k cg
        = Some (Inr (take k cg @ map Some (t # texts) @ drop (k + length (t # texts)) cg))"
      using cell_loop_1_store [of cell i vc ts t k cg ids, OF Some t k] texts(1) by simp
    moreover have "list_all2 (\<lambda>i t. \<exists>vc. cell i = Some vc \<and> cell_surface_1 ts vc = Some (Inr t))
           (filter (\<lambda>i. cell i \<noteq> None) (i # ids)) (t # texts)"
      using texts(2) Some t by simp
    ultimately show ?thesis by blast
  qed
qed

lemma voronoi_2_entries_aux:
  assumes v: "valid_input x y z r"
    and con: "container_2 x y z r = Some con"
    and order: "c_loop_order lib con (zip x (zip y z)) = [0 ..< length x]"
    and wf: "\<forall>p < length x. \<forall>vc. compute_cell lib con (zip x (zip y z)) p = Some vc
              \<longrightarrow> wf_cell vc"
  shows "\<exists>out. voronoi_2 lib x y z r = Some (Inr out) \<and> length out = length x
           \<and> (\<forall>p < length x.
                 entry_for (cell_surface_2 (to_string lib))
                   (compute_cell lib con (zip x (zip y z)) p) (out ! p))"
proof -
  let ?cell = "compute_cell lib con (zip x (zip y z))"
  let ?cg = "replicate (length x) (Some [])"
  have "0 + length [0 ..< length x] \<le> length ?cg" by simp
  from cell_loop_2_entries [of "[0 ..< length x]" ?cell 0 ?cg "to_string lib", OF _ this] wf
  obtain out where out: "cell_loop_2 (to_string lib) ?cell [0 ..< length x] 0 ?cg = Some (Inr out)"
    "length out = length ?cg"
    "\<forall>j < length [0 ..< length x].
       entry_for (cell_surface_2 (to_string lib)) (?cell ([0 ..< length x] ! j)) (out ! (0 + j))"
    by auto
  have "check_input x y z r = None" using v by (simp add: check_input_None)
  then have "voronoi_2 lib x y z r = Some (Inr out)"
    using out(1) con order by (simp add: voronoi_2_def Let_def)
  then show ?thesis using out(2,3) by auto
qed

lemma voronoi_1_packs:
  assumes v: "valid_input x y z r"
    and order: "c_loop_order lib (container_1 x y z r) (zip x (zip y z)) = [0 ..< length x]"
    and wf: "\<forall>p < length x. \<forall>vc.
        compute_cell lib (container_1 x y z r) (zip x (zip y z)) p = Some vc \<longrightarrow> wf_cell vc"
  shows "\<exists>texts. voronoi_1 lib x y z r
           = Some (Inr (map Some texts @ replicate (length x - length texts) (Some [])))
         \<and> list_all2 (\<lambda>p t. \<exists>vc.
               compute_cell lib (container_1 x y z r) (zip x (zip y z)) p = Some vc
               \<and> cell_surface_1 (to_string lib) vc = Some (Inr t))
             (filter (\<lambda>p. compute_cell lib (container_1 x y z r) (zip x (zip y z)) p \<noteq> None)
                [0 ..< length x])
             texts"
proof -
  let ?cell = "compute_cell lib (container_1 x y z r) (zip x (zip y z))"
  let ?cg = "replicate (length x) (Some [])"
  have "length (filter (\<lambda>i. ?cell i \<noteq> None) [0 ..< length x]) \<le> length [0 ..< length x]"
    by (rule length_filter_le)
  then have "0 + length (filter (\<lambda>i. ?cell i \<noteq> None) [0 ..< length x]) \<le> length ?cg"
    by simp
  from cell_loop_1_packs [of "[0 ..< length x]" ?cell 0 ?cg "to_string lib", OF _ this] wf
  obtain texts where
    texts: "cell_loop_1 (to_string lib) ?cell [0 ..< length x] 0 ?cg
        = Some (Inr (take 0 ?cg @ map Some texts @ drop (0 + length texts) ?cg))"
      "list_all2 (\<lambda>i t. \<exists>vc. ?cell i = Some vc \<and> cell_surface_1 (to_string lib) vc = Some (Inr t))
           (filter (\<lambda>i. ?cell i \<noteq> None) [0 ..< length x]) texts"
    by auto
  have "check_input x y z r = None" using v by (simp add: check_input_None)
  then have "voronoi_1 lib x y z r
      = Some (Inr (map Some texts @ replicate (length x - length texts) (Some [])))"
    using texts(1) order by (simp add: voronoi_1_def Let_def)
  then show ?thesis using texts(2) by blast
qed

lemma voronoi_1_entries_aux:
  assumes v: "valid_input x y z r"
    and order: "c_loop_order lib (container_1 x y z r) (zip x (zip y z)) = [0 ..< length x]"
    and wf: "\<forall>p < length x. \<exists>vc.
        compute_cell lib (container_1 x y z r) (zip x (zip y z)) p = Some vc \<and> wf_cell vc"
  shows "\<exists>out. voronoi_1 lib x y z r = Some (Inr out) \<and> length out = length x
           \<and> (\<forall>p < length x.
                 entry_for (cell_surface_1 (to_string lib))
                   (compute_cell lib (container_1 x y z r) (zip x (zip y z)) p) (out ! p))"
proof -
  let ?cell = "compute_cell lib (container_1 x y z r) (zip x (zip y z))"
  have wf': "\<forall>p < length x. \<forall>vc. ?cell p = Some vc \<longrightarrow> wf_cell vc"
    using wf by auto
  from voronoi_1_packs [OF v order wf'] obtain texts where
    texts: "voronoi_1 lib x y z r
           = Some (Inr (map Some texts @ replicate (length x - length texts) (Some [])))"
      "list_all2 (\<lambda>p t. \<exists>vc. ?cell p = Some vc
               \<and> cell_surface_1 (to_string lib) vc = Some (Inr t))
             (filter (\<lambda>p. ?cell p \<noteq> None) [0 ..< length x]) texts"
    by blast
  have all: "filter (\<lambda>p. ?cell p \<noteq> None) [0 ..< length x] = [0 ..< length x]"
    using wf by (intro filter_True) auto
  from texts(2) have len: "length texts = length x"
    unfolding all by (simp add: list_all2_lengthD [symmetric])
  have each: "\<exists>vc. ?cell p = Some vc \<and> cell_surface_1 (to_string lib) vc = Some (Inr (texts ! p))"
    if "p < length x" for p
    using texts(2) that unfolding all
    by (auto simp: list_all2_conv_all_nth)
  have "voronoi_1 lib x y z r = Some (Inr (map Some texts))"
    using texts(1) len by simp
  moreover have "entry_for (cell_surface_1 (to_string lib)) (?cell p) (map Some texts ! p)"
    if "p < length x" for p
    using each [OF that] that len by (auto simp: entry_for_def)
  ultimately show ?thesis using len by auto
qed

section \<open>Theorems\<close>

text \<open>
  C5. The dot-product helper does not return \<open>a.i*b.i + a.j*b.j + a.k*b.k\<close>: for
  \<open>a = (1, 2, 3)\<close> and \<open>b = (4, 5, 6)\<close> the function returns \<open>20\<close>, the dot product is
  \<open>32\<close>.
\<close>

theorem dot_is_not_the_dot_product:
  "dot (DirVector 1 2 3) (DirVector 4 5 6) = 20 \<and>
   vec_i (DirVector 1 2 3) * vec_i (DirVector 4 5 6)
     + vec_j (DirVector 1 2 3) * vec_j (DirVector 4 5 6)
     + vec_k (DirVector 1 2 3) * vec_k (DirVector 4 5 6) = (32::real)"
  by (simp add: dot_def)

text \<open>
  C6. On each axis the length is the larger of the extent and 2, and the box grows by
  \<open>length * (containerRatio - 1) / 2\<close> on both sides; with ratio 1 the container is the
  bounding box, with ratio 2 the margin is half the length.
\<close>

theorem container_sizing:
  "setThreshold e = max e 2
   \<and> conMargin len r = len * (r - 1) / 2
   \<and> container_box x y z r =
       \<lparr> conXMin = rcpp_min x - conMargin (setThreshold (rcpp_max x - rcpp_min x)) r,
         conXMax = rcpp_max x + conMargin (setThreshold (rcpp_max x - rcpp_min x)) r,
         conYMin = rcpp_min y - conMargin (setThreshold (rcpp_max y - rcpp_min y)) r,
         conYMax = rcpp_max y + conMargin (setThreshold (rcpp_max y - rcpp_min y)) r,
         conZMin = rcpp_min z - conMargin (setThreshold (rcpp_max z - rcpp_min z)) r,
         conZMax = rcpp_max z + conMargin (setThreshold (rcpp_max z - rcpp_min z)) r \<rparr>
   \<and> conMargin len 1 = 0
   \<and> container_box x y z 1 =
       \<lparr> conXMin = rcpp_min x, conXMax = rcpp_max x,
         conYMin = rcpp_min y, conYMax = rcpp_max y,
         conZMin = rcpp_min z, conZMax = rcpp_max z \<rparr>
   \<and> conMargin (setThreshold e) 2 = max e 2 / 2"
  by (simp add: setThreshold_def axis_length_def conMargin_def container_box_def Let_def max_def)

text \<open>
  C3. On a well-formed cell without parallel edges the extraction ends and has then
  written to every directed edge \<open>(vertex, slot)\<close> of the table exactly once: the places
  written are pairwise distinct, they are all the directed edges, every entry of a
  directed edge has become \<open>-1 - entry\<close>, and no triangle \<open>(ii, kk, mm)\<close> has been emitted
  twice.
\<close>

theorem every_directed_edge_once:
  assumes "wf_cell vc" and "no_parallel vc" and "vc_p vc \<le> int (length points)"
  shows "\<exists>s. extract_faces points vc = Some (Inr s)
           \<and> distinct (marked s) \<and> set (marked s) = set (darts vc)
           \<and> length (marked s) = length (darts vc)
           \<and> (\<forall>d \<in> set (darts vc). idx2 (ed s) (fst d) (snd d) = Some (- 1 - tgt vc d))
           \<and> distinct (emitted s)"
proof -
  from assms(1) have S: "table_shape vc" and R: "reciprocal vc" and L: "loop_free vc"
    and F: "simple_faces vc"
    by (simp_all add: wf_cell_def)
  from extract_faces_total [OF S R L F assms(3)] obtain s where
    s: "extract_faces points vc = Some (Inr s)" "traversal_inv vc s"
      "set (marked s) = set (darts vc)"
    by blast
  from s(2,3) have ag: "agrees vc (set (darts vc)) (ed s)" and di: "distinct (marked s)"
    and em: "emitted_inv vc (set (darts vc)) s"
    by (simp_all add: traversal_inv_def)
  have "length (marked s) = length (darts vc)"
    using di s(3) distinct_darts [of vc] by (metis distinct_card)
  moreover have "\<forall>d \<in> set (darts vc). idx2 (ed s) (fst d) (snd d) = Some (- 1 - tgt vc d)"
    using marked_entries [OF S ag] by blast
  moreover have "distinct (emitted s)"
    using emitted_distinct [OF assms(2) em] .
  ultimately show ?thesis using s(1,3) di by blast
qed

theorem every_directed_edge_once_witness:
  "wf_cell box_cell \<and> no_parallel box_cell \<and> vc_p box_cell \<le> int (length box_points)
   \<and> (\<exists>s. extract_faces box_points box_cell = Some (Inr s)
           \<and> distinct (marked s) \<and> set (marked s) = set (darts box_cell)
           \<and> length (marked s) = length (darts box_cell)
           \<and> distinct (emitted s))"
proof -
  have len: "vc_p box_cell \<le> int (length box_points)"
    by (simp add: box_cell_def box_points_def)
  from every_directed_edge_once [OF wf_box no_parallel_box len]
  show ?thesis using wf_box no_parallel_box len by blast
qed

text \<open>
  C10. On a well-formed cell, in every state that the two \<^verbatim>\<open>for\<close> loops can be in
  between two walks (\<open>traversal_inv\<close>, which holds at the start and holds again after
  each walk), the body of the loop over \<open>jj\<close>, and with it the loop
  \<^verbatim>\<open>while ( mm != ii )\<close>, ends for every directed edge \<open>(ii, jj)\<close>, without reading or
  writing outside the table. Every place it marks was unmarked before (the marked places
  stay pairwise distinct) and is one of the finitely many directed edges.
\<close>

theorem face_walk_terminates:
  assumes "wf_cell vc" and "vc_p vc \<le> int (length points)"
    and "traversal_inv vc s" and "(ii, jj) \<in> set (darts vc)"
  shows "\<exists>s'. face (vc_nu vc) points ii jj s = Some (Inr s')
           \<and> traversal_inv vc s' \<and> distinct (marked s')
           \<and> set (marked s) \<subseteq> set (marked s') \<and> set (marked s') \<subseteq> set (darts vc)
           \<and> (ii, jj) \<in> set (marked s')"
proof -
  from assms(1) have S: "table_shape vc" and R: "reciprocal vc" and L: "loop_free vc"
    and F: "simple_faces vc"
    by (simp_all add: wf_cell_def)
  from face_total [OF S R L F assms(2,3,4)] obtain s' where
    s': "face (vc_nu vc) points ii jj s = Some (Inr s')" "traversal_inv vc s'"
      "set (marked s) \<subseteq> set (marked s')" "(ii, jj) \<in> set (marked s')"
    by blast
  then show ?thesis by (auto simp: traversal_inv_def)
qed

theorem face_walk_terminates_witness:
  "wf_cell box_cell \<and> vc_p box_cell \<le> int (length box_points)
   \<and> traversal_inv box_cell (start box_cell) \<and> (1, 0) \<in> set (darts box_cell)
   \<and> (\<exists>s'. face (vc_nu box_cell) box_points 1 0 (start box_cell) = Some (Inr s')
           \<and> traversal_inv box_cell s' \<and> distinct (marked s')
           \<and> (1, 0) \<in> set (marked s'))"
proof -
  have len: "vc_p box_cell \<le> int (length box_points)"
    by (simp add: box_cell_def box_points_def)
  have d: "(1, 0) \<in> set (darts box_cell)"
    by (simp add: in_darts box_cell_def)
  from face_walk_terminates [OF wf_box len traversal_inv_start d]
  show ?thesis using wf_box len traversal_inv_start [of box_cell] d by blast
qed

text \<open>
  C7. The text of a cell is \<open>POLYHEDRALSURFACE(\<close>, rings joined by comma and space,
  and \<open>)\<close>; every ring is \<open>((\<close> \<open>P, b, c, P\<close> \<open>))\<close>, where the first and the last coordinate
  triple \<open>P\<close> are the same text, that of the vertex \<open>ii\<close> of the ring. Both definitions
  of \<^verbatim>\<open>voronoi\<close> build the text by \<open>surface_of\<close>.
\<close>

theorem rings_closed:
  assumes "surface_of (Some points) vc = Some (Inr surface)"
  shows "\<exists>tris. surface = ''POLYHEDRALSURFACE('' @ join (map (ring_text points) tris) @ '')''
           \<and> (\<forall>t \<in> set tris. \<exists>b c. ring_text points t =
                 ''(('' @ points ! nat (fst t) @ '', '' @ b @ '', '' @ c @ '', ''
                   @ points ! nat (fst t) @ ''))'')"
proof -
  from surface_of_text [OF assms] obtain s where
    s: "text_inv points s" "surface = polyhedralsurface s @ '')''"
    by blast
  have "\<exists>b c. ring_text points t =
      ''(('' @ points ! nat (fst t) @ '', '' @ b @ '', '' @ c @ '', '' @ points ! nat (fst t) @ ''))''"
    for t
    by (cases t) (auto simp: ring_text_def polygon_def)
  then show ?thesis using s by (auto simp: text_inv_def)
qed

theorem rings_closed_witness:
  "surface_of (Some box_points) box_cell = Some (Inr box_surface)
   \<and> (\<exists>tris. box_surface = ''POLYHEDRALSURFACE('' @ join (map (ring_text box_points) tris) @ '')''
           \<and> (\<forall>t \<in> set tris. \<exists>b c. ring_text box_points t =
                 ''(('' @ box_points ! nat (fst t) @ '', '' @ b @ '', '' @ c @ '', ''
                   @ box_points ! nat (fst t) @ ''))''))"
  using rings_closed [OF box_surface_of] box_surface_of by blast

text \<open>
  C8. For every valid input the count \<open>ceil(cbrt(n))\<close> that the first definition passes
  for the three axes is at least 1. In the second definition each of
  \<open>xLength * cells + 1\<close>, \<open>yLength * cells + 1\<close>, \<open>zLength * cells + 1\<close> is greater than 1,
  and \<open>nx\<close>, \<open>ny\<close>, \<open>nz\<close> are integers \<open>\<ge> 1\<close> whenever these three values are below
  \<open>2^31\<close>, where the conversion to \<^verbatim>\<open>int\<close> is defined.
\<close>

theorem grid_counts:
  assumes "valid_input x y z r"
  shows "1 \<le> cells_1 (length x)
         \<and> 1 \<le> con_nx (container_1 x y z r) \<and> 1 \<le> con_ny (container_1 x y z r)
         \<and> 1 \<le> con_nz (container_1 x y z r)
         \<and> 1 < axis_length x * cells_2 x y z + 1
         \<and> 1 < axis_length y * cells_2 x y z + 1
         \<and> 1 < axis_length z * cells_2 x y z + 1
         \<and> (axis_length x * cells_2 x y z + 1 < 2 ^ 31
              \<and> axis_length y * cells_2 x y z + 1 < 2 ^ 31
              \<and> axis_length z * cells_2 x y z + 1 < 2 ^ 31
            \<longrightarrow> (\<exists>nx ny nz. grid_2 x y z = Some (nx, ny, nz)
                   \<and> 1 \<le> nx \<and> 1 \<le> ny \<and> 1 \<le> nz))"
proof -
  from assms have n: "2 \<le> length x" by (simp add: valid_input_def)
  then have "0 < length x" by linarith
  then have c: "0 < cells_2 x y z" by (rule cells_2_pos)
  have c1: "1 \<le> cells_1 (length x)" using cells_1_ge [OF n] by simp
  then have con: "1 \<le> con_nx (container_1 x y z r)" "1 \<le> con_ny (container_1 x y z r)"
    "1 \<le> con_nz (container_1 x y z r)"
    by (simp_all add: container_1_def Let_def)
  have gx: "1 < axis_length x * cells_2 x y z + 1"
    using c axis_length_ge [of x] by simp
  have gy: "1 < axis_length y * cells_2 x y z + 1"
    using c axis_length_ge [of y] by simp
  have gz: "1 < axis_length z * cells_2 x y z + 1"
    using c axis_length_ge [of z] by simp
  have "\<exists>nx ny nz. grid_2 x y z = Some (nx, ny, nz) \<and> 1 \<le> nx \<and> 1 \<le> ny \<and> 1 \<le> nz"
    if fx: "axis_length x * cells_2 x y z + 1 < 2 ^ 31"
      and fy: "axis_length y * cells_2 x y z + 1 < 2 ^ 31"
      and fz: "axis_length z * cells_2 x y z + 1 < 2 ^ 31"
  proof -
    from int_of_double_ge1 [OF gx fx] obtain nx
      where nx: "int_of_double (axis_length x * cells_2 x y z + 1) = Some nx" "1 \<le> nx"
      by blast
    from int_of_double_ge1 [OF gy fy] obtain ny
      where ny: "int_of_double (axis_length y * cells_2 x y z + 1) = Some ny" "1 \<le> ny"
      by blast
    from int_of_double_ge1 [OF gz fz] obtain nz
      where nz: "int_of_double (axis_length z * cells_2 x y z + 1) = Some nz" "1 \<le> nz"
      by blast
    have "grid_2 x y z = Some (nx, ny, nz)"
      by (simp add: grid_2_def Let_def nx ny nz)
    then show ?thesis using nx ny nz by blast
  qed
  then show ?thesis using c1 con gx gy gz by blast
qed

theorem grid_counts_witness:
  "valid_input [0, 5 / 2, 0, 0, 0, 0, 0] [0, 2, 0, 0, 0, 0, 0] [0, 2, 0, 0, 0, 0, 0] 1
   \<and> axis_length [0, 5 / 2, 0, 0, 0, 0, 0]
         * cells_2 [0, 5 / 2, 0, 0, 0, 0, 0] [0, 2, 0, 0, 0, 0, 0] [0, 2, 0, 0, 0, 0, 0] + 1
       < 2 ^ 31
   \<and> axis_length [0, 2, 0, 0, 0, 0, 0]
         * cells_2 [0, 5 / 2, 0, 0, 0, 0, 0] [0, 2, 0, 0, 0, 0, 0] [0, 2, 0, 0, 0, 0, 0] + 1
       < 2 ^ 31
   \<and> (\<exists>nx ny nz.
         grid_2 [0, 5 / 2, 0, 0, 0, 0, 0] [0, 2, 0, 0, 0, 0, 0] [0, 2, 0, 0, 0, 0, 0]
           = Some (nx, ny, nz) \<and> 1 \<le> nx \<and> 1 \<le> ny \<and> 1 \<le> nz)
   \<and> grid_2 [0, 5 / 2, 0, 0, 0, 0, 0] [0, 2, 0, 0, 0, 0, 0] [0, 2, 0, 0, 0, 0, 0] = Some (2, 2, 2)
   \<and> 1 \<le> cells_1 (length [0, 5 / 2, 0, 0, 0, 0, 0 :: real])
   \<and> valid_input [0, 10 ^ 16] [0, 0] [0, 0] 1
   \<and> 1 \<le> cells_1 (length [0, 10 ^ 16 :: real])
   \<and> 1 \<le> con_nx (container_1 [0, 10 ^ 16] [0, 0] [0, 0] 1)"
proof -
  let ?x = "[0, 5 / 2, 0, 0, 0, 0, 0 :: real]"
  let ?y = "[0, 2, 0, 0, 0, 0, 0 :: real]"
  have v: "valid_input ?x ?y ?y 1" by (simp add: valid_input_def)
  have ax: "axis_length ?x = 5 / 2" "axis_length ?y = 2"
    by (simp_all add: axis_length_def setThreshold_def)
  have fx: "axis_length ?x * cells_2 ?x ?y ?y + 1 < 2 ^ 31"
    and fy: "axis_length ?y * cells_2 ?x ?y ?y + 1 < 2 ^ 31"
    unfolding cells_2_example ax by simp_all
  from grid_counts [OF v] fx fy
  have g: "\<exists>nx ny nz. grid_2 ?x ?y ?y = Some (nx, ny, nz) \<and> 1 \<le> nx \<and> 1 \<le> ny \<and> 1 \<le> nz"
    and c: "1 \<le> cells_1 (length ?x)"
    by blast+
  have e: "grid_2 ?x ?y ?y = Some (2, 2, 2)"
    unfolding grid_2_def Let_def cells_2_example ax by (simp add: int_of_double_def)
  have v': "valid_input [0, 10 ^ 16] [0, 0] [0, 0] 1" by (simp add: valid_input_def)
  from grid_counts [OF v']
  have c': "1 \<le> cells_1 (length [0, 10 ^ 16 :: real])"
    "1 \<le> con_nx (container_1 [0, 10 ^ 16] [0, 0] [0, 0] 1)"
    by blast+
  from v fx fy g e c v' c' show ?thesis by blast
qed

text \<open>
  The claim as stated fails for the two points \<open>(0, 0, 0)\<close> and \<open>(10^16, 0, 0)\<close>:
  \<open>xLength * cells + 1\<close> is above \<open>10^10\<close>, which no \<^verbatim>\<open>int\<close> holds.
\<close>

theorem grid_counts_counterexample:
  "valid_input [0, 10 ^ 16] [0, 0] [0, 0] 1
   \<and> grid_2 [0, 10 ^ 16] [0, 0] [0, 0] = None
   \<and> \<not> (\<exists>nx ny nz. grid_2 [0, 10 ^ 16] [0, 0] [0, 0] = Some (nx, ny, nz)
           \<and> 1 \<le> nx \<and> 1 \<le> ny \<and> 1 \<le> nz)"
  using grid_2_big by (simp add: valid_input_def)

text \<open>
  C4. Either definition of \<^verbatim>\<open>voronoi\<close> stops with the message \<open>msg\<close> exactly when the
  checks of the arguments give \<open>msg\<close>, whatever the library does: nothing of voro++ is
  called and the outcome holds no output. The checks fail exactly when the lengths
  differ, or there are fewer than 2 points, or the ratio is below 1.
\<close>

theorem invalid_input_stops:
  "(voronoi_1 lib x y z r = Some (Inl (Stop msg)) \<longleftrightarrow> check_input x y z r = Some msg)
   \<and> (voronoi_2 lib x y z r = Some (Inl (Stop msg)) \<longleftrightarrow> check_input x y z r = Some msg)
   \<and> (check_input x y z r \<noteq> None \<longleftrightarrow>
        length x \<noteq> length y \<or> length x \<noteq> length z \<or> length x < 2 \<or> r < 1)"
proof (intro conjI)
  show "voronoi_1 lib x y z r = Some (Inl (Stop msg)) \<longleftrightarrow> check_input x y z r = Some msg"
  proof (cases "check_input x y z r")
    case None
    then show ?thesis
      by (auto simp: voronoi_1_def Let_def dest: cell_loop_1_no_stop)
  next
    case (Some m)
    then show ?thesis by (auto simp: voronoi_1_def)
  qed
  show "voronoi_2 lib x y z r = Some (Inl (Stop msg)) \<longleftrightarrow> check_input x y z r = Some msg"
  proof (cases "check_input x y z r")
    case None
    then show ?thesis
      by (auto simp: voronoi_2_def Let_def dest: cell_loop_2_no_stop split: option.splits)
  next
    case (Some m)
    then show ?thesis by (auto simp: voronoi_2_def)
  qed
  show "check_input x y z r \<noteq> None \<longleftrightarrow>
      length x \<noteq> length y \<or> length x \<noteq> length z \<or> length x < 2 \<or> r < 1"
    by (auto simp: check_input_def Let_def)
qed

theorem invalid_input_stops_witness:
  "check_input [0, 0] [0, 0, 0] [0, 0] 2 = Some ''Lengths of coordinate vectors are not equal.''
   \<and> voronoi_1 example_library [0, 0] [0, 0, 0] [0, 0] 2
       = Some (Inl (Stop ''Lengths of coordinate vectors are not equal.''))
   \<and> voronoi_2 example_library [0, 0] [0, 0, 0] [0, 0] 2
       = Some (Inl (Stop ''Lengths of coordinate vectors are not equal.''))"
proof -
  have c: "check_input [0, 0] [0, 0, 0] [0, 0] 2
      = Some ''Lengths of coordinate vectors are not equal.''"
    by (simp add: check_input_def)
  from invalid_input_stops [of example_library "[0, 0]" "[0, 0, 0]" "[0, 0]" 2
      "''Lengths of coordinate vectors are not equal.''"]
  show ?thesis using c by blast
qed

text \<open>
  C1, as amended. For every valid input, when the loop of voro++ visits the particles in
  the order of the points and every cell it computes is well-formed: the second
  definition of \<^verbatim>\<open>voronoi\<close>, if its grid counts are defined, returns exactly \<open>n\<close>
  entries, and the entry at position \<open>p\<close> is the result for point \<open>p\<close>, \<^verbatim>\<open>NA_STRING\<close> when
  its cell could not be computed and the text of its cell otherwise; the first
  definition does the same when no cell fails.
\<close>

theorem voronoi_entries:
  assumes "valid_input x y z r"
  shows "(\<forall>con. container_2 x y z r = Some con
            \<longrightarrow> c_loop_order lib con (zip x (zip y z)) = [0 ..< length x]
            \<longrightarrow> (\<forall>p < length x. \<forall>vc.
                   compute_cell lib con (zip x (zip y z)) p = Some vc \<longrightarrow> wf_cell vc)
            \<longrightarrow> (\<exists>out. voronoi_2 lib x y z r = Some (Inr out) \<and> length out = length x
                  \<and> (\<forall>p < length x.
                        entry_for (cell_surface_2 (to_string lib))
                          (compute_cell lib con (zip x (zip y z)) p) (out ! p))))
       \<and> (c_loop_order lib (container_1 x y z r) (zip x (zip y z)) = [0 ..< length x]
            \<longrightarrow> (\<forall>p < length x. \<exists>vc.
                   compute_cell lib (container_1 x y z r) (zip x (zip y z)) p = Some vc
                   \<and> wf_cell vc)
            \<longrightarrow> (\<exists>out. voronoi_1 lib x y z r = Some (Inr out) \<and> length out = length x
                  \<and> (\<forall>p < length x.
                        entry_for (cell_surface_1 (to_string lib))
                          (compute_cell lib (container_1 x y z r) (zip x (zip y z)) p)
                          (out ! p))))"
  using voronoi_2_entries_aux [OF assms] voronoi_1_entries_aux [OF assms] by blast

theorem voronoi_entries_witness:
  "valid_input [0, 0, 2] [0, 0, 0] [0, 0, 0] 2
   \<and> container_2 [0, 0, 2] [0, 0, 0] [0, 0, 0] 2
       = Some \<lparr> con_box = container_box [0, 0, 2] [0, 0, 0] [0, 0, 0] 2,
                con_nx = 1, con_ny = 1, con_nz = 1 \<rparr>
   \<and> (\<exists>out. voronoi_2 example_library [0, 0, 2] [0, 0, 0] [0, 0, 0] 2 = Some (Inr out)
         \<and> length out = 3
         \<and> entry_for (cell_surface_2 six_decimals) None (out ! 0)
         \<and> entry_for (cell_surface_2 six_decimals) None (out ! 1)
         \<and> entry_for (cell_surface_2 six_decimals) (Some box_cell) (out ! 2))
   \<and> (\<exists>out. voronoi_1 box_library [0, 0, 2] [0, 0, 0] [0, 0, 0] 2 = Some (Inr out)
         \<and> length out = 3
         \<and> entry_for (cell_surface_1 six_decimals) (Some box_cell) (out ! 0)
         \<and> entry_for (cell_surface_1 six_decimals) (Some box_cell) (out ! 1)
         \<and> entry_for (cell_surface_1 six_decimals) (Some box_cell) (out ! 2))"
proof -
  let ?con = "\<lparr> con_box = container_box [0, 0, 2] [0, 0, 0] [0, 0, 0] 2,
                con_nx = 1, con_ny = 1, con_nz = 1 \<rparr>"
  let ?pts = "zip [0, 0, 2 :: real] (zip [0, 0, 0 :: real] [0, 0, 0 :: real])"
  have v: "valid_input [0, 0, 2] [0, 0, 0] [0, 0, 0] 2"
    by (simp add: valid_input_def)
  note thm2 = voronoi_entries [OF v, of example_library, THEN conjunct1, THEN spec,
      THEN mp, THEN mp, THEN mp, OF container_2_example]
  note thm1 = voronoi_entries [OF v, of box_library, THEN conjunct2, THEN mp, THEN mp]
  have order2: "c_loop_order example_library ?con ?pts = [0 ..< length [0, 0, 2 :: real]]"
    by (simp add: example_library_def)
  have wf2: "\<forall>p < length [0, 0, 2 :: real]. \<forall>vc.
      compute_cell example_library ?con ?pts p = Some vc \<longrightarrow> wf_cell vc"
    using wf_box by (auto simp: example_library_def)
  from thm2 [OF order2 wf2] obtain out2 where
    out2: "voronoi_2 example_library [0, 0, 2] [0, 0, 0] [0, 0, 0] 2 = Some (Inr out2)"
      "length out2 = length [0, 0, 2 :: real]"
      "\<forall>p < length [0, 0, 2 :: real].
         entry_for (cell_surface_2 (to_string example_library))
           (compute_cell example_library ?con ?pts p) (out2 ! p)"
    by blast
  from out2(3) [rule_format, of 0] out2(3) [rule_format, of 1] out2(3) [rule_format, of 2]
  have e2: "entry_for (cell_surface_2 six_decimals) None (out2 ! 0)"
    "entry_for (cell_surface_2 six_decimals) None (out2 ! 1)"
    "entry_for (cell_surface_2 six_decimals) (Some box_cell) (out2 ! 2)"
    by (simp_all add: example_library_def)
  have order1: "c_loop_order box_library (container_1 [0, 0, 2] [0, 0, 0] [0, 0, 0] 2) ?pts
      = [0 ..< length [0, 0, 2 :: real]]"
    by (simp add: box_library_def)
  have wf1: "\<forall>p < length [0, 0, 2 :: real].
      \<exists>vc. compute_cell box_library (container_1 [0, 0, 2] [0, 0, 0] [0, 0, 0] 2) ?pts p
      = Some vc \<and> wf_cell vc"
    using wf_box by (simp add: box_library_def)
  from thm1 [OF order1 wf1] obtain out1 where
    out1: "voronoi_1 box_library [0, 0, 2] [0, 0, 0] [0, 0, 0] 2 = Some (Inr out1)"
      "length out1 = length [0, 0, 2 :: real]"
      "\<forall>p < length [0, 0, 2 :: real].
         entry_for (cell_surface_1 (to_string box_library))
           (compute_cell box_library (container_1 [0, 0, 2] [0, 0, 0] [0, 0, 0] 2) ?pts p)
           (out1 ! p)"
    by blast
  from out1(3) [rule_format, of 0] out1(3) [rule_format, of 1] out1(3) [rule_format, of 2]
  have e1: "entry_for (cell_surface_1 six_decimals) (Some box_cell) (out1 ! 0)"
    "entry_for (cell_surface_1 six_decimals) (Some box_cell) (out1 ! 1)"
    "entry_for (cell_surface_1 six_decimals) (Some box_cell) (out1 ! 2)"
    by (simp_all add: box_library_def)
  from out2(1,2) e2 have "\<exists>out. voronoi_2 example_library [0, 0, 2] [0, 0, 0] [0, 0, 0] 2 = Some (Inr out)
         \<and> length out = 3
         \<and> entry_for (cell_surface_2 six_decimals) None (out ! 0)
         \<and> entry_for (cell_surface_2 six_decimals) None (out ! 1)
         \<and> entry_for (cell_surface_2 six_decimals) (Some box_cell) (out ! 2)"
    by auto
  moreover from out1(1,2) e1 have "\<exists>out. voronoi_1 box_library [0, 0, 2] [0, 0, 0] [0, 0, 0] 2 = Some (Inr out)
         \<and> length out = 3
         \<and> entry_for (cell_surface_1 six_decimals) (Some box_cell) (out ! 0)
         \<and> entry_for (cell_surface_1 six_decimals) (Some box_cell) (out ! 1)
         \<and> entry_for (cell_surface_1 six_decimals) (Some box_cell) (out ! 2)"
    by auto
  ultimately show ?thesis using v container_2_example by blast
qed

text \<open>
  The claim as stated fails for the two points \<open>(0, 0, 0)\<close> and \<open>(10^16, 0, 0)\<close>, a
  valid input: the conversion of the grid count to \<^verbatim>\<open>int\<close> is undefined, and no
  sequence of 2 entries is returned.
\<close>

theorem voronoi_2_undefined_grid:
  "valid_input [0, 10 ^ 16] [0, 0] [0, 0] 1
   \<and> voronoi_2 example_library [0, 10 ^ 16] [0, 0] [0, 0] 1 = Some (Inl Undefined)
   \<and> \<not> (\<exists>out. voronoi_2 example_library [0, 10 ^ 16] [0, 0] [0, 0] 1 = Some (Inr out)
           \<and> length out = 2)"
proof -
  have c: "check_input [0, 10 ^ 16] [0, 0] [0, 0] 1 = None"
    by (simp add: check_input_def)
  have "voronoi_2 example_library [0, 10 ^ 16] [0, 0] [0, 0] 1 = Some (Inl Undefined)"
    unfolding voronoi_2_def Let_def c container_2_big by (simp only: option.case)
  then show ?thesis by (simp add: valid_input_def)
qed

text \<open>
  C2. The first definition of \<^verbatim>\<open>voronoi\<close> does not do what the claim says. For the
  points \<open>(0, 0, 0)\<close>, \<open>(0, 0, 0)\<close>, \<open>(2, 0, 0)\<close> and a library that fails on the two
  coincident points, it stores the cell of point 2 at position 0 and leaves two empty
  strings, with no \<^verbatim>\<open>NA_STRING\<close>; the second definition returns
  \<^verbatim>\<open>NA_STRING\<close>, \<^verbatim>\<open>NA_STRING\<close> and the cell of point 2.
\<close>

theorem voronoi_1_skips_failed_cells:
  "voronoi_1 example_library [0, 0, 2] [0, 0, 0] [0, 0, 0] 2
     = Some (Inr [Some box_surface, Some [], Some []])
   \<and> voronoi_2 example_library [0, 0, 2] [0, 0, 0] [0, 0, 0] 2
     = Some (Inr [None, None, Some box_surface])"
proof -
  have "voronoi_1 example_library [0, 0, 2] [0, 0, 0] [0, 0, 0] 2
     = Some (Inr [Some box_surface, Some [], Some []])"
    by (simp add: voronoi_1_def check_input_def example_library_def Let_def box_surface_1
        store_def upt_rec [of 0] upt_rec [of 1] upt_rec [of 2])
  moreover have "voronoi_2 example_library [0, 0, 2] [0, 0, 0] [0, 0, 0] 2
       = Some (Inr [None, None, Some box_surface])"
    by (simp add: voronoi_2_def check_input_def example_library_def Let_def box_surface_2
        container_2_example store_def upt_rec [of 0] upt_rec [of 1] upt_rec [of 2])
  ultimately show ?thesis by simp
qed

end
